theory Spec2Isabelle
  imports Complex_Main "HOL-Library.AList" "HOL-Library.Multiset" "HOL-Library.Log_Nat"
begin

section \<open>Lichess popularity analysis: data model\<close>

text \<open>
  The development embeds \<^verbatim>\<open>src/tools/analysis/analyze_lichess_popularity.py\<close>.
  Python's unbounded integers are \<^typ>\<open>int\<close>; a Python float that holds a rating, a
  mean or a rate is an exact rational (\<^typ>\<open>rat\<close>); the dictionary
  \<^verbatim>\<open>self.stats\<close> is an association list in insertion order, read with
  \<^const>\<open>map_of\<close> and written with \<^const>\<open>AList.update\<close>; an exception is a value.
\<close>

type_synonym fen = string

datatype py_exception =
  ZeroDivisionError | IndexError | ValueError | OverflowError | OtherException

text \<open>The dataclass \<^verbatim>\<open>PopularityStats\<close>, field by field, and its default instance.\<close>

record PopularityStats =
  popularity_score :: int
  frequency_count :: int
  white_wins :: int
  black_wins :: int
  draws :: int
  games_analyzed :: int
  avg_rating :: "rat option"
  confidence_score :: rat
  analysis_date :: string

definition zero_stats :: PopularityStats where
  "zero_stats = \<lparr> popularity_score = 0, frequency_count = 0, white_wins = 0,
     black_wins = 0, draws = 0, games_analyzed = 0, avg_rating = None,
     confidence_score = 0, analysis_date = [] \<rparr>"

type_synonym stats_map = "(fen \<times> PopularityStats) list"

type_synonym position_update = "fen \<times> rat \<times> string"

section \<open>Statistics aggregator (the locked loop of \<^verbatim>\<open>process_game\<close>)\<close>

text \<open>
  The win / loss / draw chain at the end of the loop body:
  \<^verbatim>\<open>if game_result == '1-0' ... elif '0-1' ... elif '1/2-1/2' ...\<close>.
\<close>

definition count_result :: "string \<Rightarrow> PopularityStats \<Rightarrow> PopularityStats" where
  "count_result game_result s =
     (if game_result = ''1-0'' then s\<lparr>white_wins := white_wins s + 1\<rparr>
      else if game_result = ''0-1'' then s\<lparr>black_wins := black_wins s + 1\<rparr>
      else if game_result = ''1/2-1/2'' then s\<lparr>draws := draws s + 1\<rparr>
      else s)"

text \<open>
  One pass of the loop body on the record of one position. The record is mutated in
  place, so when the running average divides by a zero \<^verbatim>\<open>games_analyzed\<close> the
  two counters are already incremented: the function returns the record as the exception
  leaves it, together with the exception.
\<close>

definition update_stats ::
  "PopularityStats \<Rightarrow> rat \<Rightarrow> string \<Rightarrow> PopularityStats \<times> py_exception option" where
  "update_stats s rating game_result =
     (let s1 = s\<lparr>games_analyzed := games_analyzed s + 1\<rparr>;
          s2 = s1\<lparr>frequency_count := frequency_count s1 + 1\<rparr>
      in case avg_rating s2 of
           None \<Rightarrow> (count_result game_result (s2\<lparr>avg_rating := Some rating\<rparr>), None)
         | Some a \<Rightarrow>
             if games_analyzed s2 = 0 then (s2, Some ZeroDivisionError)
             else (count_result game_result
                     (s2\<lparr>avg_rating :=
                         Some ((a * of_int (games_analyzed s2 - 1) + rating)
                               / of_int (games_analyzed s2))\<rparr>), None))"

text \<open>
  The loop \<^verbatim>\<open>for fen, rating, game_result in position_updates\<close>: an update whose key
  is not in \<^verbatim>\<open>self.stats\<close> is dropped; an exception ends the loop and keeps what
  was written so far.
\<close>

fun apply_updates :: "stats_map \<Rightarrow> position_update list \<Rightarrow> stats_map \<times> py_exception option" where
  "apply_updates st [] = (st, None)"
| "apply_updates st ((k, rating, game_result) # us) =
     (case map_of st k of
        None \<Rightarrow> apply_updates st us
      | Some s \<Rightarrow>
          (case update_stats s rating game_result of
             (s', Some e) \<Rightarrow> (AList.update k s' st, Some e)
           | (s', None) \<Rightarrow> apply_updates (AList.update k s' st) us))"

text \<open>
  A batch is the update list of one game; \<^verbatim>\<open>process_game\<close> swallows an exception
  of the loop, so a sequence of batches threads only the map.
\<close>

definition apply_batches :: "stats_map \<Rightarrow> position_update list list \<Rightarrow> stats_map" where
  "apply_batches st bs = foldl (\<lambda>m b. fst (apply_updates m b)) st bs"

text \<open>The ratings that a list of updates carries for one key, in arrival order.\<close>

definition ratings_for :: "fen \<Rightarrow> position_update list \<Rightarrow> rat list" where
  "ratings_for k us = map (\<lambda>u. fst (snd u)) (filter (\<lambda>u. fst u = k) us)"

text \<open>The arithmetic mean of a list of ratings; there is none for the empty list.\<close>

definition mean :: "rat list \<Rightarrow> rat option" where
  "mean rs = (if rs = [] then None else Some (sum_list rs / of_nat (length rs)))"

text \<open>The two invariants of a record that the data model states.\<close>

definition stats_inv :: "PopularityStats \<Rightarrow> bool" where
  "stats_inv s \<longleftrightarrow>
     frequency_count s = games_analyzed s \<and>
     white_wins s + black_wins s + draws s \<le> games_analyzed s"

definition is_result_token :: "string \<Rightarrow> bool" where
  "is_result_token r \<longleftrightarrow> r = ''1-0'' \<or> r = ''0-1'' \<or> r = ''1/2-1/2''"

text \<open>A record that has absorbed exactly the ratings \<open>rs\<close>.\<close>

definition tracks :: "PopularityStats \<Rightarrow> rat list \<Rightarrow> bool" where
  "tracks s rs \<longleftrightarrow> games_analyzed s = int (length rs) \<and> avg_rating s = mean rs"

section \<open>Double precision\<close>

text \<open>
  A Python float is modelled as the rational it denotes. \<open>fl\<close> rounds a rational to the
  nearest number with a 53-bit significand, ties to even. Its exponent range is not
  bounded; where a result can leave the range of the doubles the model tests it with
  \<open>double_overflows\<close>: a value rounds beyond the largest double \<open>2^1024 - 2^971\<close> from the
  midpoint \<open>2^1024 - 2^970\<close> on.
\<close>

definition round_half_even :: "rat \<Rightarrow> int" where
  "round_half_even x =
     (let f = \<lfloor>x\<rfloor>; d = x - of_int f
      in if d < 1 / 2 then f else if 1 / 2 < d then f + 1 else if even f then f else f + 1)"

text \<open>For \<open>x > 0\<close>, the exponent \<open>e\<close> with \<open>2^e \<le> x < 2^(e+1)\<close>.\<close>

definition binade :: "rat \<Rightarrow> int" where
  "binade x = (if 1 \<le> x then bitlen \<lfloor>x\<rfloor> - 1 else - bitlen (\<lceil>1 / x\<rceil> - 1))"

definition fl :: "rat \<Rightarrow> rat" where
  "fl x =
     (if x = 0 then 0
      else let u = power_int 2 (binade \<bar>x\<bar> - 52)
           in sgn x * of_int (round_half_even (\<bar>x\<bar> / u)) * u)"

definition double_overflows :: "rat \<Rightarrow> bool" where
  "double_overflows x \<longleftrightarrow> 2 ^ 1024 - 2 ^ 970 \<le> \<bar>x\<bar>"

section \<open>Game parser (\<^verbatim>\<open>process_game\<close>, \<^verbatim>\<open>_safe_int\<close>)\<close>

text \<open>
  Python's \<^verbatim>\<open>int(value)\<close> on a \<^verbatim>\<open>str\<close>. A character of the model is a code point
  below 256. The two whitespace characters of that range beyond ASCII, U+0085 and U+00A0,
  are turned into spaces; the whitespace of C (the codes 9 to 13 and 32, not 28 to 31) is
  skipped at both ends; one sign may lead; the rest is a non-empty run of decimal digits in
  which single underscores may separate digits. A literal of more than 4300 digits (the
  default of \<^verbatim>\<open>sys.int_max_str_digits\<close>; signs, underscores and whitespace are not
  counted, leading zeros are) raises as well. \<open>None\<close> stands for \<^verbatim>\<open>ValueError\<close>.
\<close>

definition c_isspace :: "char \<Rightarrow> bool" where
  "c_isspace c \<longleftrightarrow> (let n = (of_char c :: nat) in (9 \<le> n \<and> n \<le> 13) \<or> n = 32)"

definition space_to_ascii :: "char \<Rightarrow> char" where
  "space_to_ascii c =
     (if (of_char c :: nat) = 133 \<or> (of_char c :: nat) = 160 then CHR '' '' else c)"

definition py_isdigit :: "char \<Rightarrow> bool" where
  "py_isdigit c \<longleftrightarrow> (let n = (of_char c :: nat) in 48 \<le> n \<and> n \<le> 57)"

definition digit_value :: "char \<Rightarrow> int" where
  "digit_value c = int (of_char c) - 48"

definition strip :: "string \<Rightarrow> string" where
  "strip s = rev (dropWhile c_isspace (rev (dropWhile c_isspace s)))"

text \<open>The flag says whether the previous character was a digit.\<close>

fun parse_digits :: "bool \<Rightarrow> string \<Rightarrow> int \<Rightarrow> int option" where
  "parse_digits prev [] acc = (if prev then Some acc else None)"
| "parse_digits prev (c # cs) acc =
     (if py_isdigit c then parse_digits True cs (10 * acc + digit_value c)
      else if c = CHR ''_'' \<and> prev then parse_digits False cs acc
      else None)"

definition int_max_str_digits :: nat where
  "int_max_str_digits = 4300"

definition py_int :: "string \<Rightarrow> int option" where
  "py_int value =
     (case strip (map space_to_ascii value) of
        [] \<Rightarrow> None
      | c # cs \<Rightarrow>
          (let body = (if c = CHR ''-'' \<or> c = CHR ''+'' then cs else c # cs);
               magnitude =
                 (if int_max_str_digits < length (filter py_isdigit body) then None
                  else parse_digits False body 0)
           in if c = CHR ''-'' then map_option uminus magnitude else magnitude))"

text \<open>\<^verbatim>\<open>_safe_int\<close>: the value of the string, and 0 when \<^verbatim>\<open>int\<close> raises.\<close>

definition safe_int :: "string \<Rightarrow> int" where
  "safe_int value = (case py_int value of Some n \<Rightarrow> n | None \<Rightarrow> 0)"

text \<open>
  What \<^verbatim>\<open>chess.pgn.read_game\<close> hands to \<^verbatim>\<open>process_game\<close>: the header
  mapping, and the replay of the main line as the FEN of the board before each move (or the
  exception that the replay raises). The PGN parser and the board are the library's; the
  parser is a parameter \<open>read_game\<close> of the model, returning the exception it raises, no
  game, or a game.
\<close>

record parsed_game =
  headers :: "(string \<times> string) list"
  mainline :: "py_exception + fen list"

definition headers_get :: "(string \<times> string) list \<Rightarrow> string \<Rightarrow> string \<Rightarrow> string" where
  "headers_get h key dflt = (case map_of h key of Some v \<Rightarrow> v | None \<Rightarrow> dflt)"

text \<open>
  \<^verbatim>\<open>process_game\<close>. The result pairs the statistics map that the call leaves with the
  exception that reaches the caller; the body is inside \<^verbatim>\<open>try\<close> with
  \<^verbatim>\<open>except Exception: pass\<close>, so every exception of the body ends the call silently,
  and an exception of the locked loop keeps what the loop wrote. The average rating
  \<^verbatim>\<open>(white_elo + black_elo) / 2\<close> is the quotient of two integers as a double: it
  raises \<^verbatim>\<open>OverflowError\<close> beyond the range of the doubles and is rounded within it.
\<close>

definition process_game ::
  "(string \<Rightarrow> py_exception + parsed_game option) \<Rightarrow> fen set \<Rightarrow> stats_map \<Rightarrow> string
     \<Rightarrow> stats_map \<times> py_exception option" where
  "process_game read_game target_fens st game_text =
     (case read_game game_text of
        Inl e \<Rightarrow> (st, None)
      | Inr None \<Rightarrow> (st, None)
      | Inr (Some game) \<Rightarrow>
          (let white_elo = safe_int (headers_get (headers game) ''WhiteElo'' ''0'');
               black_elo = safe_int (headers_get (headers game) ''BlackElo'' ''0'');
               result = headers_get (headers game) ''Result'' ''*''
           in if white_elo = 0 \<or> black_elo = 0 then (st, None)
              else if double_overflows ((of_int white_elo + of_int black_elo) / 2)
              then (st, None)
              else
                (let avg = fl ((of_int white_elo + of_int black_elo) / 2) in
                 case mainline game of
                   Inl e \<Rightarrow> (st, None)
                 | Inr fens \<Rightarrow>
                     (let position_updates =
                            map (\<lambda>current_fen. (current_fen, avg, result))
                              (filter (\<lambda>current_fen. current_fen \<in> target_fens) (take 70 fens))
                      in if position_updates \<noteq> []
                         then (fst (apply_updates st position_updates), None)
                         else (st, None)))))"

text \<open>A rating header that is missing, or whose value is the integer zero.\<close>

definition rating_missing_or_zero :: "parsed_game \<Rightarrow> string \<Rightarrow> bool" where
  "rating_missing_or_zero game key \<longleftrightarrow>
     (case map_of (headers game) key of None \<Rightarrow> True | Some v \<Rightarrow> py_int v = Some 0)"

text \<open>A rating header that is present and is not an integer literal.\<close>

definition rating_non_numeric :: "parsed_game \<Rightarrow> string \<Rightarrow> bool" where
  "rating_non_numeric game key \<longleftrightarrow>
     (case map_of (headers game) key of None \<Rightarrow> False | Some v \<Rightarrow> py_int v = None)"

section \<open>Result document (\<^verbatim>\<open>save_final_results\<close>)\<close>

text \<open>The JSON-serialisable values that a record of the result document holds.\<close>

datatype py_value = PyInt int | PyFloat rat | PyStr string | PyNone

text \<open>\<^verbatim>\<open>dataclasses.asdict\<close> on a \<^verbatim>\<open>PopularityStats\<close>: the fields in declaration order.\<close>

definition asdict :: "PopularityStats \<Rightarrow> (string \<times> py_value) list" where
  "asdict s =
     [(''popularity_score'', PyInt (popularity_score s)),
      (''frequency_count'', PyInt (frequency_count s)),
      (''white_wins'', PyInt (white_wins s)),
      (''black_wins'', PyInt (black_wins s)),
      (''draws'', PyInt (draws s)),
      (''games_analyzed'', PyInt (games_analyzed s)),
      (''avg_rating'', (case avg_rating s of None \<Rightarrow> PyNone | Some a \<Rightarrow> PyFloat a)),
      (''confidence_score'', PyFloat (confidence_score s)),
      (''analysis_date'', PyStr (analysis_date s))]"

text \<open>
  The body of the loop of \<^verbatim>\<open>save_final_results\<close> for one record, after
  \<^verbatim>\<open>stats.analysis_date = analysis_date\<close>: the dictionary of the record with the
  three rate keys assigned in both branches.
\<close>

definition final_stats_dict :: "PopularityStats \<Rightarrow> (string \<times> py_value) list" where
  "final_stats_dict s =
     (if games_analyzed s > 0 then
        AList.update ''draw_rate'' (PyFloat (of_int (draws s) / of_int (games_analyzed s)))
          (AList.update ''black_win_rate''
             (PyFloat (of_int (black_wins s) / of_int (games_analyzed s)))
             (AList.update ''white_win_rate''
                (PyFloat (of_int (white_wins s) / of_int (games_analyzed s)))
                (asdict s)))
      else
        AList.update ''draw_rate'' PyNone
          (AList.update ''black_win_rate'' PyNone
             (AList.update ''white_win_rate'' PyNone (asdict s))))"

text \<open>
  \<^verbatim>\<open>save_final_results\<close>, up to the dictionary \<^verbatim>\<open>final_data\<close> that it dumps:
  the statistics map with the date set on every record, and the document. The first
  argument is the value of \<^verbatim>\<open>datetime.now().isoformat()\<close>.
\<close>

definition save_final_results ::
  "string \<Rightarrow> stats_map \<Rightarrow> stats_map \<times> (fen \<times> (string \<times> py_value) list) list" where
  "save_final_results date st =
     (map (\<lambda>(k, s). (k, s\<lparr>analysis_date := date\<rparr>)) st,
      foldl (\<lambda>final_data (k, s).
               AList.update k (final_stats_dict (s\<lparr>analysis_date := date\<rparr>)) final_data)
        [] st)"

text \<open>The three rate fields are absent from a record of the document: none is a key.\<close>

definition rates_absent :: "(string \<times> py_value) list \<Rightarrow> bool" where
  "rates_absent d \<longleftrightarrow>
     ''white_win_rate'' \<notin> fst ` set d \<and> ''black_win_rate'' \<notin> fst ` set d \<and>
     ''draw_rate'' \<notin> fst ` set d"

section \<open>Checkpoint store (\<^verbatim>\<open>save_checkpoint\<close>)\<close>

text \<open>
  The dictionary \<^verbatim>\<open>checkpoint_data\<close>: the completed months, every statistics record
  as a dictionary, and the time of the save.
\<close>

record checkpoint_data =
  cp_processed_months :: "string list"
  cp_stats :: "(fen \<times> (string \<times> py_value) list) list"
  cp_last_updated :: string

definition make_checkpoint_data :: "string list \<Rightarrow> stats_map \<Rightarrow> string \<Rightarrow> checkpoint_data" where
  "make_checkpoint_data processed_months st now =
     \<lparr> cp_processed_months = processed_months,
       cp_stats = map (\<lambda>(k, s). (k, asdict s)) st,
       cp_last_updated = now \<rparr>"

text \<open>
  The file-system calls of a save, in program order. A file system is a map from paths to
  contents; a crash after \<open>n\<close> calls leaves what the first \<open>n\<close> calls wrote (at most
  that: chunks still in the buffer of the file object are lost too).
\<close>

type_synonym path = string

datatype fs_op =
    MkdirParents path
  | OpenTruncate path
  | WriteChunk path string
  | CloseFile path
  | Rename path path

fun apply_fs_op :: "(path \<rightharpoonup> string) \<Rightarrow> fs_op \<Rightarrow> (path \<rightharpoonup> string)" where
  "apply_fs_op fs (MkdirParents p) = fs"
| "apply_fs_op fs (OpenTruncate p) = fs(p \<mapsto> [])"
| "apply_fs_op fs (WriteChunk p c) = fs(p \<mapsto> (case fs p of None \<Rightarrow> c | Some old \<Rightarrow> old @ c))"
| "apply_fs_op fs (CloseFile p) = fs"
| "apply_fs_op fs (Rename a b) = (fs(b := fs a))(a := None)"

definition crash_after :: "nat \<Rightarrow> fs_op list \<Rightarrow> (path \<rightharpoonup> string) \<Rightarrow> (path \<rightharpoonup> string)" where
  "crash_after n ops fs = foldl apply_fs_op fs (take n ops)"

text \<open>
  \<^verbatim>\<open>save_checkpoint\<close>: \<^verbatim>\<open>mkdir\<close> of the parent directory, \<^verbatim>\<open>open(checkpoint_file, 'w')\<close>,
  the chunks that \<^verbatim>\<open>json.dump\<close> writes to the open file, and the close at the end of the
  \<^verbatim>\<open>with\<close> block. The encoder is the library's, a parameter here.
\<close>

definition save_checkpoint ::
  "(checkpoint_data \<Rightarrow> string list) \<Rightarrow> path \<Rightarrow> path \<Rightarrow> string list \<Rightarrow> stats_map \<Rightarrow> string
     \<Rightarrow> fs_op list" where
  "save_checkpoint json_chunks checkpoint_file parent processed_months st now =
     [MkdirParents parent, OpenTruncate checkpoint_file]
     @ map (WriteChunk checkpoint_file)
         (json_chunks (make_checkpoint_data processed_months st now))
     @ [CloseFile checkpoint_file]"

fun is_rename :: "fs_op \<Rightarrow> bool" where
  "is_rename (Rename a b) = True"
| "is_rename _ = False"

fun written_path :: "fs_op \<Rightarrow> path option" where
  "written_path (OpenTruncate p) = Some p"
| "written_path (WriteChunk p c) = Some p"
| "written_path _ = None"

section \<open>Download manager (\<^verbatim>\<open>download_file_with_retry\<close>, \<^verbatim>\<open>download_worker\<close>)\<close>

text \<open>
  What the environment does to one attempt of \<^verbatim>\<open>download_file_with_retry\<close>, in the
  order of the branches of the loop body: the file is downloaded, validated and moved into
  place; \<^verbatim>\<open>safe_file_move\<close> returns \<open>False\<close>; \<^verbatim>\<open>validate_downloaded_file\<close> returns
  \<open>False\<close>; an exception is raised inside \<^verbatim>\<open>try\<close> (a non-2xx response, an interrupted
  transfer); the clean-up in the handler raises itself, which leaves the function.
\<close>

datatype attempt_outcome = Installed | MoveFailed | ValidationFailed | TransferFailed | CleanupRaised

text \<open>
  The events of the retry loop: the start of attempt \<open>i\<close> (counted from 0, as
  \<^verbatim>\<open>attempt\<close> is) and a call \<^verbatim>\<open>time.sleep(seconds)\<close> of the loop itself. The pauses
  of a fraction of a second that \<^verbatim>\<open>safe_file_remove\<close> and \<^verbatim>\<open>safe_file_move\<close> make
  between their own retries are no events of the model.
\<close>

datatype dl_event = Attempt nat | Sleep nat

definition prepend :: "dl_event list \<Rightarrow> dl_event list \<times> 'r \<Rightarrow> dl_event list \<times> 'r" where
  "prepend evs res = (evs @ fst res, snd res)"

text \<open>
  The loop \<^verbatim>\<open>for attempt in range(max_retries)\<close> from index \<open>attempt\<close> on. The two
  \<^verbatim>\<open>continue\<close> branches go to the next attempt directly; only the exception handler
  sleeps, and only when another attempt remains.
\<close>

function download_attempts ::
  "(nat \<Rightarrow> attempt_outcome) \<Rightarrow> nat \<Rightarrow> nat \<Rightarrow> dl_event list \<times> (py_exception + bool)" where
  "download_attempts outcome max_retries attempt =
     (if max_retries \<le> attempt then ([], Inr False)
      else case outcome attempt of
             Installed \<Rightarrow> ([Attempt attempt], Inr True)
           | MoveFailed \<Rightarrow>
               prepend [Attempt attempt] (download_attempts outcome max_retries (attempt + 1))
           | ValidationFailed \<Rightarrow>
               prepend [Attempt attempt] (download_attempts outcome max_retries (attempt + 1))
           | TransferFailed \<Rightarrow>
               if attempt < max_retries - 1
               then prepend [Attempt attempt, Sleep 30]
                      (download_attempts outcome max_retries (attempt + 1))
               else ([Attempt attempt], Inr False)
           | CleanupRaised \<Rightarrow> ([Attempt attempt], Inl OtherException))"
  by pat_completeness auto
termination
  by (relation "measure (\<lambda>(outcome, max_retries, attempt). max_retries - attempt)") auto

definition download_file_with_retry ::
  "(nat \<Rightarrow> attempt_outcome) \<Rightarrow> nat \<Rightarrow> dl_event list \<times> (py_exception + bool)" where
  "download_file_with_retry outcome max_retries = download_attempts outcome max_retries 0"

declare download_attempts.simps [simp del]

section \<open>Pipeline orchestrator (\<^verbatim>\<open>run_analysis\<close>, the two workers)\<close>

type_synonym month = string

text \<open>\<^verbatim>\<open>remaining_months = [month for month in months if month not in self.processed_months]\<close>\<close>

definition remaining_months :: "month list \<Rightarrow> month set \<Rightarrow> month list" where
  "remaining_months months processed = filter (\<lambda>month. month \<notin> processed) months"

text \<open>
  What the download worker finds for one month: the state of the cached file
  \<^verbatim>\<open>temp_<month>.pgn.zst\<close> (absent, valid, invalid and removed, or invalid with
  \<^verbatim>\<open>safe_file_remove\<close> raising), the outcome of each download attempt, and the result
  of the validation that follows a successful download.
\<close>

datatype existing_file = NoFile | ValidFile | InvalidFile | InvalidFileRemoveRaises

record month_env =
  existing :: existing_file
  attempts :: "nat \<Rightarrow> attempt_outcome"
  revalidates :: bool

text \<open>What the run did, in order.\<close>

datatype pipeline_event =
    Skipped month
  | Downloaded month "dl_event list" bool
  | Published month
  | Processed month bool

text \<open>
  The state that the two worker threads share, and the position of each in its loop:
  the months that the \<^verbatim>\<open>for\<close> loop of \<^verbatim>\<open>download_worker\<close> has not reached yet, the
  month whose file the worker is handing to \<^verbatim>\<open>download_queue.put\<close> (which blocks while
  the queue holds three files), the two events, and the flag that says the process worker
  has left its loop.
\<close>

record pipeline =
  months_left :: "month list"
  putting :: "month option"
  download_queue :: "month list"
  download_complete :: bool
  process_done :: bool
  shutdown_requested :: bool
  processed_months :: "month set"
  stats :: stats_map
  trace :: "pipeline_event list"

definition log_event :: "pipeline_event \<Rightarrow> pipeline \<Rightarrow> pipeline" where
  "log_event ev s = s\<lparr>trace := trace s @ [ev]\<rparr>"

text \<open>
  Leaving the loop of \<^verbatim>\<open>download_worker\<close> with the shutdown signal set: the two
  \<^verbatim>\<open>shutdown_requested.set(); break\<close> branches and the \<^verbatim>\<open>except\<close> clause, followed by
  \<^verbatim>\<open>download_complete.set()\<close> of the \<^verbatim>\<open>finally\<close> clause.
\<close>

definition abort_downloads :: "pipeline \<Rightarrow> pipeline" where
  "abort_downloads s =
     s\<lparr>months_left := [], shutdown_requested := True, download_complete := True\<rparr>"

text \<open>
  One step of \<^verbatim>\<open>download_worker\<close>: the pending \<^verbatim>\<open>put\<close> when there is one, else one
  iteration of the loop over the months, else the \<^verbatim>\<open>finally\<close> clause. The pause of one
  second after a download is no event of the model.
\<close>

definition download_worker_step :: "month_env \<Rightarrow> pipeline \<Rightarrow> pipeline" where
  "download_worker_step env s =
     (if download_complete s then s
      else case putting s of
        Some month \<Rightarrow>
          if length (download_queue s) < 3
          then log_event (Published month)
                 (s\<lparr>download_queue := download_queue s @ [month], putting := None\<rparr>)
          else s
      | None \<Rightarrow>
          (case months_left s of
             [] \<Rightarrow> s\<lparr>download_complete := True\<rparr>
           | month # rest \<Rightarrow>
               if shutdown_requested s then s\<lparr>months_left := [], download_complete := True\<rparr>
               else if month \<in> processed_months s
               then log_event (Skipped month) (s\<lparr>months_left := rest\<rparr>)
               else if existing env = ValidFile
               then s\<lparr>months_left := rest, putting := Some month\<rparr>
               else if existing env = InvalidFileRemoveRaises then abort_downloads s
               else
                 (case download_file_with_retry (attempts env) 3 of
                    (evs, Inr True) \<Rightarrow>
                      if revalidates env
                      then log_event (Downloaded month evs True)
                             (s\<lparr>months_left := rest, putting := Some month\<rparr>)
                      else log_event (Downloaded month evs True) (abort_downloads s)
                  | (evs, Inr False) \<Rightarrow>
                      log_event (Downloaded month evs False) (abort_downloads s)
                  | (evs, Inl e) \<Rightarrow>
                      log_event (Downloaded month evs False) (abort_downloads s))))"

text \<open>
  One step of \<^verbatim>\<open>process_worker\<close>: it takes the next file of the queue, processes it,
  and records the month as completed when the processing succeeded; on an empty queue it
  leaves its loop once the downloads are complete. The effect of
  \<^verbatim>\<open>process_local_file\<close> on the statistics depends on the archive; it is the parameter
  \<open>plf\<close>, from the month and the statistics to the statistics it leaves and its result.
\<close>

definition process_worker_step ::
  "(month \<Rightarrow> stats_map \<Rightarrow> stats_map \<times> bool) \<Rightarrow> pipeline \<Rightarrow> pipeline" where
  "process_worker_step plf s =
     (if process_done s then s
      else case download_queue s of
        [] \<Rightarrow> if download_complete s then s\<lparr>process_done := True\<rparr> else s
      | month # rest \<Rightarrow>
          (let (st', success) = plf month (stats s)
           in log_event (Processed month success)
                (s\<lparr>download_queue := rest, stats := st',
                   processed_months :=
                     (if success then insert month (processed_months s)
                      else processed_months s)\<rparr>)))"

text \<open>
  The scheduler and the environment choose the next step: a step of the download worker in
  an environment, a step of the process worker, an exception that ends the process worker
  (its \<^verbatim>\<open>except\<close> clause sets the shutdown signal), or an interrupt of the main thread.
\<close>

datatype action = DownloadStep month_env | ProcessStep | ProcessCrash | Interrupt

fun pipeline_step ::
  "(month \<Rightarrow> stats_map \<Rightarrow> stats_map \<times> bool) \<Rightarrow> pipeline \<Rightarrow> action \<Rightarrow> pipeline" where
  "pipeline_step plf s (DownloadStep env) = download_worker_step env s"
| "pipeline_step plf s ProcessStep = process_worker_step plf s"
| "pipeline_step plf s ProcessCrash =
     (if process_done s then s else s\<lparr>process_done := True, shutdown_requested := True\<rparr>)"
| "pipeline_step plf s Interrupt = s\<lparr>shutdown_requested := True\<rparr>"

definition run_pipeline ::
  "(month \<Rightarrow> stats_map \<Rightarrow> stats_map \<times> bool) \<Rightarrow> pipeline \<Rightarrow> action list \<Rightarrow> pipeline" where
  "run_pipeline plf s acts = foldl (pipeline_step plf) s acts"

text \<open>
  The state in which the workers start, for a list of months handed to the download
  worker; \<^verbatim>\<open>run_analysis\<close> hands over \<open>remaining_months\<close>.
\<close>

definition start_workers :: "month list \<Rightarrow> month set \<Rightarrow> stats_map \<Rightarrow> pipeline" where
  "start_workers months processed st =
     \<lparr> months_left = months, putting = None, download_queue = [],
       download_complete = False, process_done = False, shutdown_requested = False,
       processed_months = processed, stats = st, trace = [] \<rparr>"

definition run_analysis ::
  "(month \<Rightarrow> stats_map \<Rightarrow> stats_map \<times> bool) \<Rightarrow> month list \<Rightarrow> month set \<Rightarrow> stats_map
     \<Rightarrow> action list \<Rightarrow> pipeline" where
  "run_analysis plf months processed st acts =
     run_pipeline plf (start_workers (remaining_months months processed) processed st) acts"

text \<open>The months that a trace downloaded, published and processed.\<close>

fun downloaded_months :: "pipeline_event list \<Rightarrow> month list" where
  "downloaded_months [] = []"
| "downloaded_months (Downloaded m evs ok # es) = m # downloaded_months es"
| "downloaded_months (e # es) = downloaded_months es"

fun published_months :: "pipeline_event list \<Rightarrow> month list" where
  "published_months [] = []"
| "published_months (Published m # es) = m # published_months es"
| "published_months (e # es) = published_months es"

fun processed_units :: "pipeline_event list \<Rightarrow> month list" where
  "processed_units [] = []"
| "processed_units (Processed m ok # es) = m # processed_units es"
| "processed_units (e # es) = processed_units es"

text \<open>The statistics that processing a list of units in order leaves.\<close>

definition process_units ::
  "(month \<Rightarrow> stats_map \<Rightarrow> stats_map \<times> bool) \<Rightarrow> stats_map \<Rightarrow> month list \<Rightarrow> stats_map" where
  "process_units plf st ms = foldl (\<lambda>st m. fst (plf m st)) st ms"

text \<open>
  No month of the set \<open>done\<close> is in the queue, on its way into it, or among the months
  that the trace downloaded, published or processed, and the statistics are those of
  processing the units of the trace, in order, from \<open>st0\<close>.
\<close>

definition redo_free ::
  "month set \<Rightarrow> (month \<Rightarrow> stats_map \<Rightarrow> stats_map \<times> bool) \<Rightarrow> stats_map \<Rightarrow> pipeline \<Rightarrow> bool" where
  "redo_free done plf st0 s \<longleftrightarrow>
     done \<subseteq> processed_months s \<and>
     set (download_queue s) \<inter> done = {} \<and>
     set_option (putting s) \<inter> done = {} \<and>
     set (downloaded_months (trace s)) \<inter> done = {} \<and>
     set (published_months (trace s)) \<inter> done = {} \<and>
     set (processed_units (trace s)) \<inter> done = {} \<and>
     stats s = process_units plf st0 (processed_units (trace s))"

text \<open>
  A month that a run never downloads, publishes, queues or processes.
\<close>

definition untouched :: "month \<Rightarrow> pipeline \<Rightarrow> bool" where
  "untouched u s \<longleftrightarrow>
     u \<notin> set (downloaded_months (trace s)) \<and>
     u \<notin> set (published_months (trace s)) \<and>
     u \<notin> set (download_queue s) \<and>
     putting s \<noteq> Some u \<and>
     u \<notin> set (processed_units (trace s))"

fun is_attempt :: "dl_event \<Rightarrow> bool" where
  "is_attempt (Attempt i) = True"
| "is_attempt (Sleep t) = False"

section \<open>Popularity scorer (\<^verbatim>\<open>calculate_popularity_scores\<close>)\<close>

text \<open>
  The index of the \<open>i\<close>-th threshold is \<^verbatim>\<open>int((i / 10) * n) - 1\<close>, computed in double
  precision: \<^verbatim>\<open>i / 10\<close> is the double nearest to the quotient, \<open>n\<close> is converted to a
  double, the product is rounded to the nearest double (no value of this computation is
  near the ends of the exponent range), and \<^verbatim>\<open>int\<close> truncates toward zero.
\<close>

definition py_trunc :: "rat \<Rightarrow> int" where
  "py_trunc x = (if 0 \<le> x then \<lfloor>x\<rfloor> else \<lceil>x\<rceil>)"

definition decile_index :: "int \<Rightarrow> int \<Rightarrow> int" where
  "decile_index i n = py_trunc (fl (fl (of_int i / 10) * fl (of_int n))) - 1"

text \<open>Python's \<^verbatim>\<open>xs[i]\<close>: a negative index counts from the end; out of range raises.\<close>

definition list_get :: "'a list \<Rightarrow> int \<Rightarrow> py_exception + 'a" where
  "list_get xs i =
     (if 0 \<le> i \<and> i < int (length xs) then Inr (xs ! nat i)
      else if i < 0 \<and> - int (length xs) \<le> i then Inr (xs ! nat (int (length xs) + i))
      else Inl IndexError)"

text \<open>
  The loop \<^verbatim>\<open>for i in range(1, 11)\<close> that fills \<^verbatim>\<open>percentile_thresholds\<close> from the
  sorted counts, over the values of \<open>i\<close> that remain.
\<close>

fun thresholds_for :: "int list \<Rightarrow> int list \<Rightarrow> py_exception + int list" where
  "thresholds_for game_counts [] = Inr []"
| "thresholds_for game_counts (i # rest) =
     (let index = decile_index i (int (length game_counts));
          index = (if index < 0 then 0 else index)
      in case list_get game_counts index of
           Inl e \<Rightarrow> Inl e
         | Inr threshold \<Rightarrow>
             (case thresholds_for game_counts rest of
                Inl e \<Rightarrow> Inl e
              | Inr thresholds \<Rightarrow> Inr (threshold # thresholds)))"

definition percentile_thresholds :: "int list \<Rightarrow> py_exception + int list" where
  "percentile_thresholds game_counts = thresholds_for game_counts [1..10]"

text \<open>
  The scan \<^verbatim>\<open>for threshold in percentile_thresholds: if games_analyzed <= threshold: break; score += 1\<close>.
\<close>

fun score_scan :: "int \<Rightarrow> int list \<Rightarrow> int \<Rightarrow> int" where
  "score_scan games [] score = score"
| "score_scan games (threshold # rest) score =
     (if games \<le> threshold then score else score_scan games rest (score + 1))"

text \<open>The confidence ladder; the four float literals are the decimals they are written as.\<close>

definition confidence_for :: "int \<Rightarrow> rat" where
  "confidence_for games =
     (if games \<ge> 1000 then 1 else if games \<ge> 100 then 8 / 10
      else if games \<ge> 10 then 6 / 10 else 4 / 10)"

text \<open>The body of the loop \<^verbatim>\<open>for fen, stats in self.stats.items()\<close> on one record.\<close>

definition score_stats :: "int list \<Rightarrow> PopularityStats \<Rightarrow> PopularityStats" where
  "score_stats thresholds s =
     (if games_analyzed s = 0 then s\<lparr>popularity_score := 0, confidence_score := 0\<rparr>
      else s\<lparr>popularity_score := min (score_scan (games_analyzed s) thresholds 1) 10,
             confidence_score := confidence_for (games_analyzed s)\<rparr>)"

text \<open>\<^verbatim>\<open>[stats.games_analyzed for stats in self.stats.values() if stats.games_analyzed > 0]\<close>\<close>

definition positive_counts :: "stats_map \<Rightarrow> int list" where
  "positive_counts st = filter (\<lambda>g. g > 0) (map (\<lambda>(k, s). games_analyzed s) st)"

text \<open>
  \<^verbatim>\<open>calculate_popularity_scores\<close>. With no positive count it returns at once and writes
  nothing. The thresholds are computed before any record is written, so an exception of the
  indexing leaves the map as it was.
\<close>

definition calculate_popularity_scores :: "stats_map \<Rightarrow> py_exception + stats_map" where
  "calculate_popularity_scores st =
     (let game_counts = positive_counts st
      in if game_counts = [] then Inr st
         else case percentile_thresholds (sort game_counts) of
                Inl e \<Rightarrow> Inl e
              | Inr thresholds \<Rightarrow> Inr (map (\<lambda>(k, s). (k, score_stats thresholds s)) st))"

text \<open>
  The thresholds as the specification words them, in exact arithmetic:
  \<open>threshold[i] = sorted[clamp(floor(i/10 * n) - 1, 0, n - 1)]\<close> for \<open>i\<close> in 1..10, and
  the score \<open>min(1 + number of thresholds strictly less than the count, 10)\<close>.
\<close>

definition spec_thresholds :: "int list \<Rightarrow> int list" where
  "spec_thresholds sorted_counts =
     (let n = int (length sorted_counts)
      in map (\<lambda>i. sorted_counts ! nat (max 0 (min (n - 1) ((i * n) div 10 - 1)))) [1..10])"

definition spec_score :: "int list \<Rightarrow> int \<Rightarrow> int" where
  "spec_score thresholds games =
     min (1 + int (length (filter (\<lambda>t. t < games) thresholds))) 10"

text \<open>
  An example input: ninety positions, the \<open>c\<close>-th with \<open>c\<close> games (and a key of \<open>c\<close>
  characters).
\<close>

definition ninety_positions :: stats_map where
  "ninety_positions =
     map (\<lambda>c. (replicate (nat c) CHR ''p'', zero_stats\<lparr>games_analyzed := c\<rparr>)) [1..90]"

section \<open>Aggregator: counters\<close>

lemma count_result_fields:
  "games_analyzed (count_result r s) = games_analyzed s"
  "frequency_count (count_result r s) = frequency_count s"
  "avg_rating (count_result r s) = avg_rating s"
  "popularity_score (count_result r s) = popularity_score s"
  "confidence_score (count_result r s) = confidence_score s"
  by (simp_all add: count_result_def)

lemma count_result_buckets:
  "white_wins (count_result r s) = white_wins s + (if r = ''1-0'' then 1 else 0)"
  "black_wins (count_result r s) = black_wins s + (if r = ''0-1'' then 1 else 0)"
  "draws (count_result r s) = draws s + (if r = ''1/2-1/2'' then 1 else 0)"
  by (simp_all add: count_result_def)

lemma update_stats_counters:
  "games_analyzed (fst (update_stats s rating r)) = games_analyzed s + 1"
  "frequency_count (fst (update_stats s rating r)) = frequency_count s + 1"
  by (simp_all add: update_stats_def Let_def count_result_fields split: option.split)

lemma update_stats_buckets_ok:
  assumes "snd (update_stats s rating r) = None"
  shows "white_wins (fst (update_stats s rating r)) = white_wins s + (if r = ''1-0'' then 1 else 0)"
    and "black_wins (fst (update_stats s rating r)) = black_wins s + (if r = ''0-1'' then 1 else 0)"
    and "draws (fst (update_stats s rating r)) = draws s + (if r = ''1/2-1/2'' then 1 else 0)"
  using assms
  by (simp_all add: update_stats_def Let_def count_result_buckets split: option.splits if_splits)

lemma update_stats_buckets_raise:
  assumes "snd (update_stats s rating r) = Some e"
  shows "white_wins (fst (update_stats s rating r)) = white_wins s"
    and "black_wins (fst (update_stats s rating r)) = black_wins s"
    and "draws (fst (update_stats s rating r)) = draws s"
  using assms
  by (simp_all add: update_stats_def Let_def split: option.splits if_splits)

lemma update_stats_inv:
  assumes "stats_inv s"
  shows "stats_inv (fst (update_stats s rating r))"
proof (cases "snd (update_stats s rating r)")
  case None
  then show ?thesis
    using assms update_stats_buckets_ok [OF None]
    by (simp add: stats_inv_def update_stats_counters)
next
  case (Some e)
  then show ?thesis
    using assms update_stats_buckets_raise [OF Some]
    by (simp add: stats_inv_def update_stats_counters)
qed

lemma set_update_subset:
  "set (AList.update k v al) \<subseteq> insert (k, v) (set al)"
  by (induction al) auto

lemma apply_updates_inv:
  assumes "\<forall>s \<in> snd ` set st. stats_inv s"
  shows "\<forall>s \<in> snd ` set (fst (apply_updates st us)). stats_inv s"
  using assms
proof (induction us arbitrary: st)
  case Nil
  then show ?case by simp
next
  case (Cons u us)
  obtain k rating r where u: "u = (k, rating, r)" by (cases u) auto
  show ?case
  proof (cases "map_of st k")
    case None
    then show ?thesis using Cons u by simp
  next
    case (Some s)
    then have "(k, s) \<in> set st" by (rule map_of_SomeD)
    then have "stats_inv s" using Cons.prems by force
    then have inv': "stats_inv (fst (update_stats s rating r))" by (rule update_stats_inv)
    let ?st' = "AList.update k (fst (update_stats s rating r)) st"
    have all': "\<forall>s \<in> snd ` set ?st'. stats_inv s"
      using set_update_subset [of k "fst (update_stats s rating r)" st] Cons.prems inv'
      by force
    show ?thesis
    proof (cases "snd (update_stats s rating r)")
      case None
      then have "apply_updates st (u # us) = apply_updates ?st' us"
        using Some u by (simp add: prod.case_eq_if)
      then show ?thesis using Cons.IH [OF all'] by simp
    next
      case (Some e)
      then have "apply_updates st (u # us) = (?st', Some e)"
        using \<open>map_of st k = Some s\<close> u by (simp add: prod.case_eq_if)
      then show ?thesis using all' by simp
    qed
  qed
qed

lemma apply_batches_inv:
  assumes "\<forall>s \<in> snd ` set st. stats_inv s"
  shows "\<forall>s \<in> snd ` set (apply_batches st bs). stats_inv s"
  using assms
proof (induction bs arbitrary: st)
  case Nil
  then show ?case by (simp add: apply_batches_def)
next
  case (Cons b bs)
  have "apply_batches st (b # bs) = apply_batches (fst (apply_updates st b)) bs"
    by (simp add: apply_batches_def)
  then show ?case using Cons.IH [OF apply_updates_inv [OF Cons.prems]] by simp
qed

text \<open>
  Claim C5. A zero-valued record satisfies \<open>frequency_count = games_analyzed\<close> and
  \<open>white_wins + black_wins + draws \<le> games_analyzed\<close>, and every sequence of batched
  updates on a map of such records keeps both for every record. Each applied update adds
  one to \<open>games_analyzed\<close> and to \<open>frequency_count\<close>, adds one to the bucket that the
  result token names and to no other, and adds to no bucket when the result is not one of
  the three tokens.
\<close>

theorem batched_update_preserves_invariants:
  "stats_inv zero_stats \<and>
   ((\<forall>s \<in> snd ` set st. s = zero_stats) \<longrightarrow>
      (\<forall>s \<in> snd ` set (apply_batches st bs). stats_inv s)) \<and>
   ((\<forall>s \<in> snd ` set st. stats_inv s) \<longrightarrow>
      (\<forall>s \<in> snd ` set (fst (apply_updates st us)). stats_inv s)) \<and>
   games_analyzed (fst (update_stats s rating r)) = games_analyzed s + 1 \<and>
   frequency_count (fst (update_stats s rating r)) = frequency_count s + 1 \<and>
   (snd (update_stats s rating r) = None \<longrightarrow>
      white_wins (fst (update_stats s rating r)) = white_wins s + (if r = ''1-0'' then 1 else 0) \<and>
      black_wins (fst (update_stats s rating r)) = black_wins s + (if r = ''0-1'' then 1 else 0) \<and>
      draws (fst (update_stats s rating r)) = draws s + (if r = ''1/2-1/2'' then 1 else 0)) \<and>
   (snd (update_stats s rating r) \<noteq> None \<or> \<not> is_result_token r \<longrightarrow>
      white_wins (fst (update_stats s rating r)) = white_wins s \<and>
      black_wins (fst (update_stats s rating r)) = black_wins s \<and>
      draws (fst (update_stats s rating r)) = draws s)"
proof -
  have z: "stats_inv zero_stats"
    by (simp add: stats_inv_def zero_stats_def)
  have batches: "\<forall>s \<in> snd ` set (apply_batches st bs). stats_inv s"
    if "\<forall>s \<in> snd ` set st. s = zero_stats"
    using that z by (intro apply_batches_inv) auto
  have one: "\<forall>s \<in> snd ` set (fst (apply_updates st us)). stats_inv s"
    if "\<forall>s \<in> snd ` set st. stats_inv s"
    using that by (rule apply_updates_inv)
  have hit: "white_wins (fst (update_stats s rating r)) = white_wins s + (if r = ''1-0'' then 1 else 0) \<and>
        black_wins (fst (update_stats s rating r)) = black_wins s + (if r = ''0-1'' then 1 else 0) \<and>
        draws (fst (update_stats s rating r)) = draws s + (if r = ''1/2-1/2'' then 1 else 0)"
    if "snd (update_stats s rating r) = None"
    using update_stats_buckets_ok [OF that] by simp
  have miss: "white_wins (fst (update_stats s rating r)) = white_wins s \<and>
        black_wins (fst (update_stats s rating r)) = black_wins s \<and>
        draws (fst (update_stats s rating r)) = draws s"
    if "snd (update_stats s rating r) \<noteq> None \<or> \<not> is_result_token r"
  proof (cases "snd (update_stats s rating r)")
    case None
    then have "\<not> is_result_token r" using that by simp
    then have "r \<noteq> ''1-0''" "r \<noteq> ''0-1''" "r \<noteq> ''1/2-1/2''"
      unfolding is_result_token_def by blast+
    then show ?thesis
      using update_stats_buckets_ok [OF None] by presburger
  next
    case (Some e)
    then show ?thesis using update_stats_buckets_raise [OF Some] by blast
  qed
  have cnt: "games_analyzed (fst (update_stats s rating r)) = games_analyzed s + 1"
     "frequency_count (fst (update_stats s rating r)) = frequency_count s + 1"
    by (rule update_stats_counters)+
  show ?thesis
    using z batches one hit miss cnt by blast
qed

theorem batched_update_preserves_invariants_witness:
  "stats_inv (snd (hd (apply_batches [(''A'', zero_stats)]
      [[(''A'', 1550, ''1-0'')], [(''A'', 1425, ''*''), (''B'', 1810, ''0-1'')]]))) \<and>
   stats_inv (snd (hd (fst (apply_updates [(''A'', zero_stats)] [(''A'', 1550, ''1/2-1/2'')])))) \<and>
   games_analyzed (fst (update_stats zero_stats 1550 ''1-0'')) = 1 \<and>
   white_wins (fst (update_stats zero_stats 1550 ''1-0'')) = 1 \<and>
   draws (fst (update_stats zero_stats 1550 ''*'')) = 0"
proof -
  let ?st = "[(''A'', zero_stats)]"
  let ?bs = "[[(''A'', 1550, ''1-0'')], [(''A'', 1425, ''*''), (''B'', 1810, ''0-1'')]]"
  let ?us = "[(''A'', 1550, ''1/2-1/2'')]"
  have zero: "\<forall>s \<in> snd ` set ?st. s = zero_stats" by simp
  have inv0: "\<forall>s \<in> snd ` set ?st. stats_inv s"
    by (simp add: stats_inv_def zero_stats_def)
  have ne1: "apply_batches ?st ?bs \<noteq> []" by code_simp
  have ne2: "fst (apply_updates ?st ?us) \<noteq> []" by code_simp
  have ok: "snd (update_stats zero_stats 1550 ''1-0'') = None" by code_simp
  have star: "\<not> is_result_token ''*''" by code_simp
  have g0: "games_analyzed zero_stats = 0" "white_wins zero_stats = 0" "draws zero_stats = 0"
    by (simp_all add: zero_stats_def)
  note a = batched_update_preserves_invariants
    [of ?st ?bs "[]" zero_stats 1550 "''1-0''"]
  note b = batched_update_preserves_invariants
    [of ?st "[]" ?us zero_stats 1550 "''*''"]
  have a1: "\<forall>s \<in> snd ` set (apply_batches ?st ?bs). stats_inv s"
    using a zero by blast
  have b1: "\<forall>s \<in> snd ` set (fst (apply_updates ?st ?us)). stats_inv s"
    using b inv0 by blast
  have "stats_inv (snd (hd (apply_batches ?st ?bs)))"
    using a1 hd_in_set [OF ne1] by blast
  moreover have "stats_inv (snd (hd (fst (apply_updates ?st ?us))))"
    using b1 hd_in_set [OF ne2] by blast
  moreover have "games_analyzed (fst (update_stats zero_stats 1550 ''1-0'')) = 1"
    using a g0 by simp
  moreover have "white_wins (fst (update_stats zero_stats 1550 ''1-0'')) = 1"
    using a ok g0 by simp
  moreover have "draws (fst (update_stats zero_stats 1550 ''*'')) = 0"
    using b star g0 by simp
  ultimately show ?thesis by blast
qed

lemma update_stats_no_raise:
  assumes "0 \<le> games_analyzed s"
  shows "snd (update_stats s rating r) = None"
  using assms by (simp add: update_stats_def Let_def split: option.split)

lemma mean_snoc:
  "mean (rs @ [x]) =
     Some (case mean rs of None \<Rightarrow> x
           | Some a \<Rightarrow> (a * of_nat (length rs) + x) / of_nat (length rs + 1))"
proof (cases "rs = []")
  case True
  then show ?thesis by (simp add: mean_def)
next
  case False
  then have "(of_nat (length rs) :: rat) \<noteq> 0" by simp
  then show ?thesis using False by (simp add: mean_def)
qed

lemma update_stats_tracks:
  assumes "tracks s rs"
  shows "tracks (fst (update_stats s rating r)) (rs @ [rating])"
proof -
  have ga: "games_analyzed s = int (length rs)" and avg: "avg_rating s = mean rs"
    using assms by (simp_all add: tracks_def)
  have cnt: "games_analyzed (fst (update_stats s rating r)) = int (length (rs @ [rating]))"
    using ga by (simp add: update_stats_counters)
  have "avg_rating (fst (update_stats s rating r)) = mean (rs @ [rating])"
  proof (cases "mean rs")
    case None
    then show ?thesis
      using avg by (simp add: update_stats_def Let_def count_result_fields mean_snoc)
  next
    case (Some a)
    have "games_analyzed s + 1 \<noteq> 0" using ga by simp
    moreover have "(of_int (int (length rs)) :: rat) = of_nat (length rs)" by simp
    ultimately show ?thesis
      using avg Some ga
      by (simp add: update_stats_def Let_def count_result_fields mean_snoc add.commute)
  qed
  then show ?thesis using cnt by (simp add: tracks_def)
qed

lemma ratings_for_Cons:
  "ratings_for k ((k', rating, r) # us) =
     (if k' = k then rating # ratings_for k us else ratings_for k us)"
  by (simp add: ratings_for_def)

lemma ratings_for_append:
  "ratings_for k (us @ vs) = ratings_for k us @ ratings_for k vs"
  by (simp add: ratings_for_def)

lemma apply_updates_tracks:
  assumes "\<forall>s \<in> snd ` set st. 0 \<le> games_analyzed s"
    and "map_of st k = Some s" and "tracks s rs"
  shows "snd (apply_updates st us) = None \<and>
         (\<forall>s \<in> snd ` set (fst (apply_updates st us)). 0 \<le> games_analyzed s) \<and>
         (\<exists>s'. map_of (fst (apply_updates st us)) k = Some s' \<and>
               tracks s' (rs @ ratings_for k us))"
  using assms
proof (induction us arbitrary: st s rs)
  case Nil
  then show ?case by (simp add: ratings_for_def)
next
  case (Cons u us)
  obtain k' rating r where u: "u = (k', rating, r)" by (cases u) auto
  show ?case
  proof (cases "map_of st k'")
    case None
    then have "k' \<noteq> k" using Cons.prems(2) by auto
    then show ?thesis
      using None u Cons.IH [OF Cons.prems] by (simp add: ratings_for_Cons)
  next
    case (Some t)
    let ?t' = "fst (update_stats t rating r)"
    let ?st' = "AList.update k' ?t' st"
    have "(k', t) \<in> set st" using Some by (rule map_of_SomeD)
    then have t0: "0 \<le> games_analyzed t" using Cons.prems(1) by force
    then have ok: "snd (update_stats t rating r) = None" by (rule update_stats_no_raise)
    have step: "apply_updates st (u # us) = apply_updates ?st' us"
      using Some u ok by (simp add: prod.case_eq_if)
    have "0 \<le> games_analyzed ?t'" using t0 by (simp add: update_stats_counters)
    then have nn: "\<forall>s \<in> snd ` set ?st'. 0 \<le> games_analyzed s"
      using set_update_subset [of k' ?t' st] Cons.prems(1) by force
    show ?thesis
    proof (cases "k' = k")
      case True
      then have ts: "t = s" using Some Cons.prems(2) by simp
      have m: "map_of ?st' k = Some ?t'" using True by (simp add: update_conv')
      have tr: "tracks ?t' (rs @ [rating])"
        using Cons.prems(3) ts by (simp add: update_stats_tracks)
      show ?thesis
        using Cons.IH [OF nn m tr] step True u by (simp add: ratings_for_Cons)
    next
      case False
      then have m: "map_of ?st' k = Some s" using Cons.prems(2) by (simp add: update_conv')
      show ?thesis
        using Cons.IH [OF nn m Cons.prems(3)] step False u by (simp add: ratings_for_Cons)
    qed
  qed
qed

lemma apply_batches_tracks:
  assumes "\<forall>s \<in> snd ` set st. 0 \<le> games_analyzed s"
    and "map_of st k = Some s" and "tracks s rs"
  shows "\<exists>s'. map_of (apply_batches st bs) k = Some s' \<and>
               tracks s' (rs @ ratings_for k (concat bs))"
  using assms
proof (induction bs arbitrary: st s rs)
  case Nil
  then show ?case by (simp add: apply_batches_def ratings_for_def)
next
  case (Cons b bs)
  from apply_updates_tracks [OF Cons.prems, of b]
  obtain s' where nn: "\<forall>s \<in> snd ` set (fst (apply_updates st b)). 0 \<le> games_analyzed s"
    and m: "map_of (fst (apply_updates st b)) k = Some s'"
    and tr: "tracks s' (rs @ ratings_for k b)" by blast
  have "apply_batches st (b # bs) = apply_batches (fst (apply_updates st b)) bs"
    by (simp add: apply_batches_def)
  then show ?case
    using Cons.IH [OF nn m tr] by (simp add: ratings_for_append)
qed

lemma mean_mset_cong:
  assumes "mset rs = mset rs'"
  shows "mean rs = mean rs'"
proof -
  have "sum_list rs = sum_list rs'"
    using assms by (metis sum_mset_sum_list)
  moreover have "length rs = length rs'"
    using assms by (metis size_mset)
  moreover have "rs = [] \<longleftrightarrow> rs' = []"
    using assms by (metis mset_zero_iff)
  ultimately show ?thesis by (simp add: mean_def)
qed

lemma ratings_for_mset_cong:
  assumes "mset us = mset vs"
  shows "mset (ratings_for k us) = mset (ratings_for k vs)"
proof -
  have "mset (ratings_for k us) = image_mset (\<lambda>u. fst (snd u)) (filter_mset (\<lambda>u. fst u = k) (mset us))"
    by (simp add: ratings_for_def)
  also have "\<dots> = mset (ratings_for k vs)"
    using assms by (simp add: ratings_for_def)
  finally show ?thesis .
qed

text \<open>
  Claim C1. Every record starts zero-valued. After any sequence of batches, the
  \<open>avg_rating\<close> of a key of the map is the arithmetic mean of the ratings that the
  updates carried for that key (there is none when no update named the key), computed in
  exact arithmetic. Two sequences of batches that hold the same updates, however grouped
  and in whatever order, therefore leave the same \<open>avg_rating\<close>.
\<close>

theorem avg_rating_is_arithmetic_mean:
  assumes "\<forall>s \<in> snd ` set st. s = zero_stats" and "k \<in> fst ` set st"
  shows "map_option avg_rating (map_of (apply_batches st bs) k)
           = Some (mean (ratings_for k (concat bs))) \<and>
         (mset (concat bs') = mset (concat bs) \<longrightarrow>
            map_option avg_rating (map_of (apply_batches st bs') k)
              = map_option avg_rating (map_of (apply_batches st bs) k))"
proof -
  obtain s where m: "map_of st k = Some s"
    using assms(2) by (metis domD dom_map_of_conv_image_fst)
  then have "(k, s) \<in> set st" by (rule map_of_SomeD)
  then have "s = zero_stats" using assms(1) by force
  then have tr: "tracks s []" by (simp add: tracks_def zero_stats_def mean_def)
  have nn: "\<forall>s \<in> snd ` set st. 0 \<le> games_analyzed s"
    using assms(1) by (auto simp: zero_stats_def)
  have gen: "map_option avg_rating (map_of (apply_batches st cs) k)
           = Some (mean (ratings_for k (concat cs)))" for cs
    using apply_batches_tracks [OF nn m tr, of cs] by (auto simp: tracks_def)
  have eqm: "mean (ratings_for k (concat bs')) = mean (ratings_for k (concat bs))"
    if "mset (concat bs') = mset (concat bs)"
    using that by (intro mean_mset_cong ratings_for_mset_cong)
  show ?thesis
  proof (intro conjI impI)
    show "map_option avg_rating (map_of (apply_batches st bs) k)
            = Some (mean (ratings_for k (concat bs)))"
      by (rule gen)
  next
    assume "mset (concat bs') = mset (concat bs)"
    then show "map_option avg_rating (map_of (apply_batches st bs') k)
                = map_option avg_rating (map_of (apply_batches st bs) k)"
      by (simp only: gen eqm)
  qed
qed

theorem avg_rating_is_arithmetic_mean_witness:
  "map_option avg_rating (map_of (apply_batches [(''A'', zero_stats), (''B'', zero_stats)]
       [[(''A'', 1550, ''1-0'')], [(''B'', 1810, ''0-1''), (''A'', 1425, ''1/2-1/2'')]]) ''A'')
     = Some (Some (2975 / 2)) \<and>
   map_option avg_rating (map_of (apply_batches [(''A'', zero_stats), (''B'', zero_stats)]
       [[(''A'', 1425, ''1/2-1/2''), (''A'', 1550, ''1-0''), (''B'', 1810, ''0-1'')]]) ''A'')
     = Some (Some (2975 / 2))"
proof -
  let ?st = "[(''A'', zero_stats), (''B'', zero_stats)]"
  let ?bs = "[[(''A'', 1550, ''1-0'')], [(''B'', 1810, ''0-1''), (''A'', 1425, ''1/2-1/2'')]]"
  let ?bs' = "[[(''A'', 1425, ''1/2-1/2''), (''A'', 1550, ''1-0''), (''B'', 1810, ''0-1'')]]"
  have z: "\<forall>s \<in> snd ` set ?st. s = zero_stats" by simp
  have k: "''A'' \<in> fst ` set ?st" by simp
  have p: "mset (concat ?bs') = mset (concat ?bs)" by (simp add: add.commute)
  have v: "mean (ratings_for ''A'' (concat ?bs)) = Some (2975 / 2)" by code_simp
  note t = avg_rating_is_arithmetic_mean [OF z k, of ?bs ?bs']
  show ?thesis using t p v by simp
qed

section \<open>Game parser: discarded records\<close>

lemma py_int_zero_literal: "py_int ''0'' = Some 0"
  by code_simp

lemma safe_int_missing_or_zero:
  assumes "rating_missing_or_zero game key"
  shows "safe_int (headers_get (headers game) key ''0'') = 0"
  using assms py_int_zero_literal
  by (simp add: rating_missing_or_zero_def headers_get_def safe_int_def split: option.splits)

lemma safe_int_non_numeric:
  assumes "rating_non_numeric game key"
  shows "safe_int (headers_get (headers game) key ''0'') = 0"
  using assms
  by (simp add: rating_non_numeric_def headers_get_def safe_int_def split: option.splits)

lemma process_game_zero_rating:
  assumes "read_game game_text = Inr (Some game)"
    and "safe_int (headers_get (headers game) ''WhiteElo'' ''0'') = 0 \<or>
         safe_int (headers_get (headers game) ''BlackElo'' ''0'') = 0"
  shows "process_game read_game target_fens st game_text = (st, None)"
  using assms by (auto simp: process_game_def Let_def)

lemma process_game_never_raises:
  "snd (process_game read_game target_fens st game_text) = None"
  by (simp add: process_game_def Let_def split: sum.split option.split)

lemma process_game_overflow:
  assumes "read_game game_text = Inr (Some game)"
    and "double_overflows
           ((of_int (safe_int (headers_get (headers game) ''WhiteElo'' ''0'')) +
             of_int (safe_int (headers_get (headers game) ''BlackElo'' ''0''))) / 2)"
  shows "process_game read_game target_fens st game_text = (st, None)"
  using assms by (simp add: process_game_def Let_def)

text \<open>
  The model of \<^verbatim>\<open>int\<close> on the strings that tell the whitespace of \<^verbatim>\<open>int\<close> from
  that of \<^verbatim>\<open>str.isspace\<close>: the separator 0x1C is not skipped, the no-break space and
  the vertical tab are.
\<close>

lemma py_int_examples:
  "py_int (CHR 0x1C # ''1500'') = None"
  "py_int (CHR 0xA0 # ''1500'') = Some 1500"
  "py_int (CHR 0x85 # ''1500 '') = Some 1500"
  "py_int (CHR 0x0B # ''12'' @ [CHR 0x0C]) = Some 12"
  "py_int ''1_000'' = Some 1000"
  "py_int ''1__0'' = None"
  "py_int ''-0'' = Some 0"
  "py_int ''+ 5'' = None"
  "py_int ''?'' = None"
  by code_simp+

text \<open>
  Claim C7. When the parsed record lacks the \<open>WhiteElo\<close> or the \<open>BlackElo\<close> header, or
  one of the two holds the integer zero, \<open>process_game\<close> returns with the statistics map
  exactly as it was.
\<close>

theorem ratingless_game_is_discarded:
  assumes "read_game game_text = Inr (Some game)"
    and "rating_missing_or_zero game ''WhiteElo'' \<or> rating_missing_or_zero game ''BlackElo''"
  shows "process_game read_game target_fens st game_text = (st, None)"
proof -
  have "safe_int (headers_get (headers game) ''WhiteElo'' ''0'') = 0 \<or>
        safe_int (headers_get (headers game) ''BlackElo'' ''0'') = 0"
    using assms(2) safe_int_missing_or_zero by blast
  with assms(1) show ?thesis by (rule process_game_zero_rating)
qed

theorem ratingless_game_is_discarded_witness:
  "process_game
     (\<lambda>t. Inr (Some \<lparr>headers = [(''WhiteElo'', ''1500''), (''Result'', ''1-0'')],
                      mainline = Inr [''A'', ''B'']\<rparr>))
     {''A''} [(''A'', zero_stats)] ''[WhiteElo 1500] 1. e4 1-0''
   = ([(''A'', zero_stats)], None) \<and>
   process_game
     (\<lambda>t. Inr (Some \<lparr>headers = [(''WhiteElo'', ''1500''), (''BlackElo'', '' 00 '')],
                      mainline = Inr [''A'', ''B'']\<rparr>))
     {''A''} [(''A'', zero_stats)] ''1. e4''
   = ([(''A'', zero_stats)], None)"
proof -
  let ?g1 = "\<lparr>headers = [(''WhiteElo'', ''1500''), (''Result'', ''1-0'')],
               mainline = Inr [''A'', ''B'']\<rparr>"
  let ?g2 = "\<lparr>headers = [(''WhiteElo'', ''1500''), (''BlackElo'', '' 00 '')],
               mainline = Inr [''A'', ''B'']\<rparr>"
  have m1: "rating_missing_or_zero ?g1 ''WhiteElo'' \<or> rating_missing_or_zero ?g1 ''BlackElo''"
    by (simp add: rating_missing_or_zero_def)
  have "py_int '' 00 '' = Some 0" by code_simp
  then have m2: "rating_missing_or_zero ?g2 ''WhiteElo'' \<or> rating_missing_or_zero ?g2 ''BlackElo''"
    by (simp add: rating_missing_or_zero_def)
  show ?thesis
    using ratingless_game_is_discarded [of "\<lambda>t. Inr (Some ?g1)" _ ?g1, OF refl m1]
      ratingless_game_is_discarded [of "\<lambda>t. Inr (Some ?g2)" _ ?g2, OF refl m2]
    by simp
qed

text \<open>
  Claim C10. No exception of \<open>process_game\<close> reaches its caller, whatever the input. The
  statistics map is returned as it was when the text is not parsed as a game (the parser
  raises or yields nothing), when a rating header is not an integer literal (it counts as
  zero), when the replay raises, when none of the positions before the first 70 moves
  is in the target set, and when the average of the two ratings is beyond the range of the
  doubles.
\<close>

theorem process_game_total_and_unusable_unchanged:
  "snd (process_game read_game target_fens st game_text) = None \<and>
   ((\<exists>e. read_game game_text = Inl e) \<or> read_game game_text = Inr None
      \<longrightarrow> fst (process_game read_game target_fens st game_text) = st) \<and>
   (read_game game_text = Inr (Some game) \<and>
    (rating_non_numeric game ''WhiteElo'' \<or> rating_non_numeric game ''BlackElo'')
      \<longrightarrow> safe_int (headers_get (headers game) ''WhiteElo'' ''0'') *
            safe_int (headers_get (headers game) ''BlackElo'' ''0'') = 0 \<and>
          fst (process_game read_game target_fens st game_text) = st) \<and>
   (read_game game_text = Inr (Some game) \<and>
    (case mainline game of Inl e \<Rightarrow> True | Inr fens \<Rightarrow> set (take 70 fens) \<inter> target_fens = {})
      \<longrightarrow> fst (process_game read_game target_fens st game_text) = st) \<and>
   (read_game game_text = Inr (Some game) \<and>
    double_overflows
      ((of_int (safe_int (headers_get (headers game) ''WhiteElo'' ''0'')) +
        of_int (safe_int (headers_get (headers game) ''BlackElo'' ''0''))) / 2)
      \<longrightarrow> fst (process_game read_game target_fens st game_text) = st)"
proof (intro conjI impI)
  show "snd (process_game read_game target_fens st game_text) = None"
    by (rule process_game_never_raises)
next
  assume "(\<exists>e. read_game game_text = Inl e) \<or> read_game game_text = Inr None"
  then show "fst (process_game read_game target_fens st game_text) = st"
    by (auto simp: process_game_def)
next
  assume a: "read_game game_text = Inr (Some game) \<and>
    (rating_non_numeric game ''WhiteElo'' \<or> rating_non_numeric game ''BlackElo'')"
  then have z: "safe_int (headers_get (headers game) ''WhiteElo'' ''0'') = 0 \<or>
        safe_int (headers_get (headers game) ''BlackElo'' ''0'') = 0"
    using safe_int_non_numeric by blast
  then show "safe_int (headers_get (headers game) ''WhiteElo'' ''0'') *
            safe_int (headers_get (headers game) ''BlackElo'' ''0'') = 0"
    by auto
  show "fst (process_game read_game target_fens st game_text) = st"
    using process_game_zero_rating [of read_game game_text game] z a by simp
next
  assume a: "read_game game_text = Inr (Some game) \<and>
    (case mainline game of Inl e \<Rightarrow> True | Inr fens \<Rightarrow> set (take 70 fens) \<inter> target_fens = {})"
  show "fst (process_game read_game target_fens st game_text) = st"
  proof (cases "mainline game")
    case (Inl e)
    then show ?thesis using a by (simp add: process_game_def Let_def)
  next
    case (Inr fens)
    then have "set (take 70 fens) \<inter> target_fens = {}" using a by simp
    then have "filter (\<lambda>f. f \<in> target_fens) (take 70 fens) = []"
      by (auto simp: filter_empty_conv)
    then show ?thesis using a Inr by (simp add: process_game_def Let_def)
  qed
next
  assume "read_game game_text = Inr (Some game) \<and>
    double_overflows
      ((of_int (safe_int (headers_get (headers game) ''WhiteElo'' ''0'')) +
        of_int (safe_int (headers_get (headers game) ''BlackElo'' ''0''))) / 2)"
  then show "fst (process_game read_game target_fens st game_text) = st"
    using process_game_overflow [of read_game game_text game target_fens st] by simp
qed

theorem process_game_total_and_unusable_unchanged_witness:
  "fst (process_game (\<lambda>t. Inl ValueError) {''A''} [(''A'', zero_stats)] ''not a game'')
     = [(''A'', zero_stats)] \<and>
   fst (process_game
     (\<lambda>t. Inr (Some \<lparr>headers = [(''WhiteElo'', ''?''), (''BlackElo'', ''1500'')],
                      mainline = Inr [''A'', ''B'']\<rparr>))
     {''A''} [(''A'', zero_stats)] ''1. e4'') = [(''A'', zero_stats)] \<and>
   fst (process_game
     (\<lambda>t. Inr (Some \<lparr>headers = [(''WhiteElo'', ''1600''), (''BlackElo'', CHR 0x1C # ''1500'')],
                      mainline = Inr [''A'', ''B'']\<rparr>))
     {''A''} [(''A'', zero_stats)] ''1. e4'') = [(''A'', zero_stats)] \<and>
   fst (process_game
     (\<lambda>t. Inr (Some \<lparr>headers = [(''WhiteElo'', ''1600''), (''BlackElo'', ''1500'')],
                      mainline = Inr [''B'', ''C'']\<rparr>))
     {''A''} [(''A'', zero_stats)] ''1. e4'') = [(''A'', zero_stats)] \<and>
   fst (process_game
     (\<lambda>t. Inr (Some \<lparr>headers = [(''WhiteElo'', replicate 310 CHR ''9''),
                                 (''BlackElo'', ''1500'')],
                      mainline = Inr [''A'', ''B'']\<rparr>))
     {''A''} [(''A'', zero_stats)] ''1. e4'') = [(''A'', zero_stats)]"
proof -
  let ?st = "[(''A'', zero_stats)]"
  let ?g2 = "\<lparr>headers = [(''WhiteElo'', ''?''), (''BlackElo'', ''1500'')],
               mainline = Inr [''A'', ''B'']\<rparr>"
  let ?g2' = "\<lparr>headers = [(''WhiteElo'', ''1600''), (''BlackElo'', CHR 0x1C # ''1500'')],
               mainline = Inr [''A'', ''B'']\<rparr>"
  let ?g3 = "\<lparr>headers = [(''WhiteElo'', ''1600''), (''BlackElo'', ''1500'')],
               mainline = Inr [''B'', ''C'']\<rparr>"
  let ?g4 = "\<lparr>headers = [(''WhiteElo'', replicate 310 CHR ''9''), (''BlackElo'', ''1500'')],
               mainline = Inr [''A'', ''B'']\<rparr>"
  have q: "py_int ''?'' = None" by code_simp
  have q': "py_int (CHR 0x1C # ''1500'') = None" by code_simp
  have n2: "rating_non_numeric ?g2 ''WhiteElo'' \<or> rating_non_numeric ?g2 ''BlackElo''"
    using q by (simp add: rating_non_numeric_def)
  have n2': "rating_non_numeric ?g2' ''WhiteElo'' \<or> rating_non_numeric ?g2' ''BlackElo''"
    using q' by (simp add: rating_non_numeric_def)
  have n3: "(case mainline ?g3 of Inl e \<Rightarrow> True
             | Inr fens \<Rightarrow> set (take 70 fens) \<inter> {''A''} = {})"
    by simp
  have w: "py_int (replicate 310 CHR ''9'') = Some (10 ^ 310 - 1)" by code_simp
  have b: "py_int ''1500'' = Some 1500" by code_simp
  have sw: "safe_int (headers_get (headers ?g4) ''WhiteElo'' ''0'') = 10 ^ 310 - 1"
    using w by (simp add: safe_int_def headers_get_def)
  have sb: "safe_int (headers_get (headers ?g4) ''BlackElo'' ''0'') = 1500"
    using b by (simp add: safe_int_def headers_get_def)
  have n4: "double_overflows
      ((of_int (safe_int (headers_get (headers ?g4) ''WhiteElo'' ''0'')) +
        of_int (safe_int (headers_get (headers ?g4) ''BlackElo'' ''0''))) / 2)"
    unfolding sw sb by (simp add: double_overflows_def)
  have r1: "fst (process_game (\<lambda>t. Inl ValueError) {''A''} ?st ''not a game'') = ?st"
    using process_game_total_and_unusable_unchanged
            [of "\<lambda>t. Inl ValueError" "{''A''}" ?st "''not a game''" ?g2]
    by blast
  have r2: "fst (process_game (\<lambda>t. Inr (Some ?g2)) {''A''} ?st ''1. e4'') = ?st"
    using process_game_total_and_unusable_unchanged
            [of "\<lambda>t. Inr (Some ?g2)" "{''A''}" ?st "''1. e4''" ?g2] n2
    by blast
  have r2': "fst (process_game (\<lambda>t. Inr (Some ?g2')) {''A''} ?st ''1. e4'') = ?st"
    using process_game_total_and_unusable_unchanged
            [of "\<lambda>t. Inr (Some ?g2')" "{''A''}" ?st "''1. e4''" ?g2'] n2'
    by blast
  have r3: "fst (process_game (\<lambda>t. Inr (Some ?g3)) {''A''} ?st ''1. e4'') = ?st"
    using process_game_total_and_unusable_unchanged
            [of "\<lambda>t. Inr (Some ?g3)" "{''A''}" ?st "''1. e4''" ?g3] n3
    by blast
  have r4: "fst (process_game (\<lambda>t. Inr (Some ?g4)) {''A''} ?st ''1. e4'') = ?st"
    using process_game_total_and_unusable_unchanged
            [of "\<lambda>t. Inr (Some ?g4)" "{''A''}" ?st "''1. e4''" ?g4] n4
    by blast
  show ?thesis using r1 r2 r2' r3 r4 by (intro conjI)
qed

text \<open>
  A literal of 4301 digits is beyond the limit of \<^verbatim>\<open>int\<close>, so \<^verbatim>\<open>_safe_int\<close> reads it
  as 0.
\<close>

lemma py_int_digit_limit: "py_int (replicate 4301 CHR ''1'') = None"
proof -
  have c: "space_to_ascii CHR ''1'' = CHR ''1''" "\<not> c_isspace CHR ''1''" "py_isdigit CHR ''1''"
    by (simp_all add: space_to_ascii_def c_isspace_def py_isdigit_def)
  have s: "strip (map space_to_ascii (replicate 4301 CHR ''1''))
             = CHR ''1'' # replicate 4300 CHR ''1''"
    using c
    by (simp add: strip_def dropWhile_replicate replicate_Suc [symmetric]
          del: replicate_Suc replicate.simps)
  have l: "length (filter py_isdigit (CHR ''1'' # replicate 4300 CHR ''1'')) = 4301"
    using c by simp
  show ?thesis
    unfolding py_int_def s
    by (simp add: l int_max_str_digits_def Let_def del: replicate_Suc replicate.simps)
qed

section \<open>Result document: derived rates\<close>

lemma final_data_lookup:
  assumes "distinct (map fst st)"
  shows "map_of (foldl (\<lambda>fd (k, s). AList.update k (F s) fd) acc st) k =
           (case map_of st k of Some s \<Rightarrow> Some (F s) | None \<Rightarrow> map_of acc k)"
  using assms
proof (induction st arbitrary: acc)
  case Nil
  then show ?case by simp
next
  case (Cons p st)
  obtain k' s' where p: "p = (k', s')" by (cases p)
  have d: "distinct (map fst st)" and nin: "k' \<notin> fst ` set st"
    using Cons.prems p by auto
  have absent: "map_of st k' = None"
    using nin by (simp add: map_of_eq_None_iff)
  show ?case
    using Cons.IH [OF d, of "AList.update k' (F s') acc"] p absent
    by (auto simp: update_conv' split: option.splits)
qed

lemma asdict_keeps_rates_out:
  "map_of (asdict s) ''white_win_rate'' = None"
  "map_of (asdict s) ''black_win_rate'' = None"
  "map_of (asdict s) ''draw_rate'' = None"
  by (simp_all add: asdict_def)

lemma final_stats_dict_rates:
  "map_of (final_stats_dict s) ''white_win_rate'' =
     Some (if games_analyzed s > 0
           then PyFloat (of_int (white_wins s) / of_int (games_analyzed s)) else PyNone)"
  "map_of (final_stats_dict s) ''black_win_rate'' =
     Some (if games_analyzed s > 0
           then PyFloat (of_int (black_wins s) / of_int (games_analyzed s)) else PyNone)"
  "map_of (final_stats_dict s) ''draw_rate'' =
     Some (if games_analyzed s > 0
           then PyFloat (of_int (draws s) / of_int (games_analyzed s)) else PyNone)"
  by (simp_all add: final_stats_dict_def update_conv')

lemma final_stats_dict_keeps_fields:
  assumes "f \<noteq> ''white_win_rate''" "f \<noteq> ''black_win_rate''" "f \<noteq> ''draw_rate''"
  shows "map_of (final_stats_dict s) f = map_of (asdict s) f"
  using assms by (simp add: final_stats_dict_def update_conv')

text \<open>
  Claim C9, as stated, at a record with no game: the claim says that the three rate fields
  are absent from the record of the document; the code assigns \<open>None\<close> to each of them,
  so all three are keys of the record.
\<close>

theorem rate_fields_present_without_games:
  "games_analyzed zero_stats = 0 \<and>
   map_of (snd (save_final_results ''2025-07-14T12:00:00'' [(''A'', zero_stats)])) ''A''
     = Some (final_stats_dict (zero_stats\<lparr>analysis_date := ''2025-07-14T12:00:00''\<rparr>)) \<and>
   \<not> rates_absent (final_stats_dict (zero_stats\<lparr>analysis_date := ''2025-07-14T12:00:00''\<rparr>)) \<and>
   map_of (final_stats_dict (zero_stats\<lparr>analysis_date := ''2025-07-14T12:00:00''\<rparr>))
     ''white_win_rate'' = Some PyNone"
proof -
  let ?s = "zero_stats\<lparr>analysis_date := ''2025-07-14T12:00:00''\<rparr>"
  have g: "games_analyzed zero_stats = 0" "games_analyzed ?s = 0"
    by (simp_all add: zero_stats_def)
  have w: "map_of (final_stats_dict ?s) ''white_win_rate'' = Some PyNone"
    using g by (simp add: final_stats_dict_rates)
  then have "''white_win_rate'' \<in> fst ` set (final_stats_dict ?s)"
    by (metis domI dom_map_of_conv_image_fst)
  then have "\<not> rates_absent (final_stats_dict ?s)"
    by (simp add: rates_absent_def)
  moreover have "map_of (snd (save_final_results ''2025-07-14T12:00:00'' [(''A'', zero_stats)])) ''A''
     = Some (final_stats_dict ?s)"
    by (simp add: save_final_results_def update_conv')
  ultimately show ?thesis using g w by blast
qed

text \<open>
  Claim C9, amended. For every key of the statistics map, the record of the document
  holds the nine fields of the statistics record (with the analysis date set) and the three
  rate fields. With \<open>games_analyzed > 0\<close> the rates are \<open>white_wins / games_analyzed\<close>,
  \<open>black_wins / games_analyzed\<close> and \<open>draws / games_analyzed\<close>; otherwise the three
  fields are present and hold \<open>None\<close>.
\<close>

theorem result_document_rates:
  assumes "distinct (map fst st)" and "map_of st k = Some s"
  shows "\<exists>d. map_of (snd (save_final_results date st)) k = Some d \<and>
           (\<forall>f. f \<in> fst ` set (asdict s) \<longrightarrow>
                map_of d f = map_of (asdict (s\<lparr>analysis_date := date\<rparr>)) f) \<and>
           (0 < games_analyzed s \<longrightarrow>
              map_of d ''white_win_rate''
                = Some (PyFloat (of_int (white_wins s) / of_int (games_analyzed s))) \<and>
              map_of d ''black_win_rate''
                = Some (PyFloat (of_int (black_wins s) / of_int (games_analyzed s))) \<and>
              map_of d ''draw_rate''
                = Some (PyFloat (of_int (draws s) / of_int (games_analyzed s)))) \<and>
           (\<not> 0 < games_analyzed s \<longrightarrow>
              map_of d ''white_win_rate'' = Some PyNone \<and>
              map_of d ''black_win_rate'' = Some PyNone \<and>
              map_of d ''draw_rate'' = Some PyNone)"
proof -
  let ?s = "s\<lparr>analysis_date := date\<rparr>"
  let ?d = "final_stats_dict ?s"
  have look: "map_of (snd (save_final_results date st)) k = Some ?d"
    using final_data_lookup [OF assms(1), of "\<lambda>s. final_stats_dict (s\<lparr>analysis_date := date\<rparr>)" "[]" k]
      assms(2)
    by (simp add: save_final_results_def)
  have fields: "map_of ?d f = map_of (asdict ?s) f" if "f \<in> fst ` set (asdict s)" for f
  proof (rule final_stats_dict_keeps_fields)
    have "map_of (asdict s) f \<noteq> None"
      using that by (simp add: map_of_eq_None_iff)
    then show "f \<noteq> ''white_win_rate''" "f \<noteq> ''black_win_rate''" "f \<noteq> ''draw_rate''"
      using asdict_keeps_rates_out [of s] by auto
  qed
  have rates: "map_of ?d ''white_win_rate'' =
     Some (if games_analyzed s > 0
           then PyFloat (of_int (white_wins s) / of_int (games_analyzed s)) else PyNone)"
    "map_of ?d ''black_win_rate'' =
     Some (if games_analyzed s > 0
           then PyFloat (of_int (black_wins s) / of_int (games_analyzed s)) else PyNone)"
    "map_of ?d ''draw_rate'' =
     Some (if games_analyzed s > 0
           then PyFloat (of_int (draws s) / of_int (games_analyzed s)) else PyNone)"
    using final_stats_dict_rates [of ?s] by simp_all
  show ?thesis
  proof (intro exI conjI allI impI)
    show "map_of (snd (save_final_results date st)) k = Some ?d" by (rule look)
  qed (use fields rates in simp_all)
qed

theorem result_document_rates_witness:
  "(\<exists>d. map_of (snd (save_final_results ''2025-07-14T12:00:00''
            [(''A'', zero_stats\<lparr>games_analyzed := 4, white_wins := 1, draws := 2\<rparr>),
             (''B'', zero_stats)])) ''A'' = Some d \<and>
        map_of d ''white_win_rate'' = Some (PyFloat (1 / 4)) \<and>
        map_of d ''black_win_rate'' = Some (PyFloat 0) \<and>
        map_of d ''draw_rate'' = Some (PyFloat (1 / 2)) \<and>
        map_of d ''games_analyzed'' = Some (PyInt 4)) \<and>
   (\<exists>d. map_of (snd (save_final_results ''2025-07-14T12:00:00''
            [(''A'', zero_stats\<lparr>games_analyzed := 4, white_wins := 1, draws := 2\<rparr>),
             (''B'', zero_stats)])) ''B'' = Some d \<and>
        map_of d ''white_win_rate'' = Some PyNone \<and>
        map_of d ''black_win_rate'' = Some PyNone \<and>
        map_of d ''draw_rate'' = Some PyNone)"
proof -
  let ?a = "zero_stats\<lparr>games_analyzed := 4, white_wins := 1, draws := 2\<rparr>"
  let ?st = "[(''A'', ?a), (''B'', zero_stats)]"
  have d: "distinct (map fst ?st)" by simp
  have ma: "map_of ?st ''A'' = Some ?a" by simp
  have mb: "map_of ?st ''B'' = Some zero_stats" by simp
  have k: "''games_analyzed'' \<in> fst ` set (asdict ?a)" by (simp add: asdict_def)
  have v: "map_of (asdict (?a\<lparr>analysis_date := ''2025-07-14T12:00:00''\<rparr>)) ''games_analyzed''
             = Some (PyInt 4)"
    by (simp add: asdict_def)
  have f: "games_analyzed ?a = 4" "white_wins ?a = 1" "black_wins ?a = 0" "draws ?a = 2"
    "games_analyzed zero_stats = 0"
    by (simp_all add: zero_stats_def)
  from result_document_rates [OF d ma, of "''2025-07-14T12:00:00''"]
  obtain da where "map_of (snd (save_final_results ''2025-07-14T12:00:00'' ?st)) ''A'' = Some da"
    and "\<forall>f. f \<in> fst ` set (asdict ?a) \<longrightarrow>
            map_of da f = map_of (asdict (?a\<lparr>analysis_date := ''2025-07-14T12:00:00''\<rparr>)) f"
    and "0 < games_analyzed ?a \<longrightarrow>
              map_of da ''white_win_rate''
                = Some (PyFloat (of_int (white_wins ?a) / of_int (games_analyzed ?a))) \<and>
              map_of da ''black_win_rate''
                = Some (PyFloat (of_int (black_wins ?a) / of_int (games_analyzed ?a))) \<and>
              map_of da ''draw_rate''
                = Some (PyFloat (of_int (draws ?a) / of_int (games_analyzed ?a)))"
    by blast
  then have A: "\<exists>d. map_of (snd (save_final_results ''2025-07-14T12:00:00'' ?st)) ''A'' = Some d \<and>
        map_of d ''white_win_rate'' = Some (PyFloat (1 / 4)) \<and>
        map_of d ''black_win_rate'' = Some (PyFloat 0) \<and>
        map_of d ''draw_rate'' = Some (PyFloat (1 / 2)) \<and>
        map_of d ''games_analyzed'' = Some (PyInt 4)"
    using k v f by (intro exI [of _ da]) simp
  from result_document_rates [OF d mb, of "''2025-07-14T12:00:00''"]
  obtain db where "map_of (snd (save_final_results ''2025-07-14T12:00:00'' ?st)) ''B'' = Some db"
    and "\<not> 0 < games_analyzed zero_stats \<longrightarrow>
              map_of db ''white_win_rate'' = Some PyNone \<and>
              map_of db ''black_win_rate'' = Some PyNone \<and>
              map_of db ''draw_rate'' = Some PyNone"
    by blast
  then have B: "\<exists>d. map_of (snd (save_final_results ''2025-07-14T12:00:00'' ?st)) ''B'' = Some d \<and>
        map_of d ''white_win_rate'' = Some PyNone \<and>
        map_of d ''black_win_rate'' = Some PyNone \<and>
        map_of d ''draw_rate'' = Some PyNone"
    using f by (intro exI [of _ db]) simp
  show ?thesis using A B by (rule conjI)
qed

section \<open>Checkpoint store: the save overwrites in place\<close>

text \<open>
  Claim C4 at a save over an existing checkpoint. The claim says that the snapshot goes to
  a temporary location and then replaces the checkpoint atomically. The code opens the
  checkpoint path itself for writing: no call is a rename, every written path is the
  checkpoint path, and a crash after the first chunk leaves that chunk alone in the
  checkpoint file, the previous checkpoint gone.
\<close>

theorem save_checkpoint_overwrites_in_place:
  "save_checkpoint (\<lambda>d. [''{'', concat (cp_processed_months d), ''}''])
      ''work/stats_checkpoint.json'' ''work'' [''2021-07'', ''2021-08''] [] ''now''
     = [MkdirParents ''work'', OpenTruncate ''work/stats_checkpoint.json'',
        WriteChunk ''work/stats_checkpoint.json'' ''{'',
        WriteChunk ''work/stats_checkpoint.json'' ''2021-072021-08'',
        WriteChunk ''work/stats_checkpoint.json'' ''}'',
        CloseFile ''work/stats_checkpoint.json''] \<and>
   list_ex is_rename
     (save_checkpoint (\<lambda>d. [''{'', concat (cp_processed_months d), ''}''])
        ''work/stats_checkpoint.json'' ''work'' [''2021-07'', ''2021-08''] [] ''now'') = False \<and>
   crash_after 3
     (save_checkpoint (\<lambda>d. [''{'', concat (cp_processed_months d), ''}''])
        ''work/stats_checkpoint.json'' ''work'' [''2021-07'', ''2021-08''] [] ''now'')
     [''work/stats_checkpoint.json'' \<mapsto> ''{2021-07}''] ''work/stats_checkpoint.json''
     = Some ''{''"
  by (simp add: save_checkpoint_def make_checkpoint_data_def crash_after_def)

lemma save_checkpoint_never_renames:
  "list_ex is_rename (save_checkpoint json_chunks checkpoint_file parent months_done st now)
     = False"
  by (simp add: save_checkpoint_def list_ex_iff image_iff)

lemma save_checkpoint_writes_checkpoint_path_only:
  "op \<in> set (save_checkpoint json_chunks checkpoint_file parent months_done st now)
     \<Longrightarrow> written_path op = None \<or> written_path op = Some checkpoint_file"
  by (auto simp: save_checkpoint_def)

section \<open>Download manager and orchestrator: completed months\<close>

lemma downloaded_months_append:
  "downloaded_months (xs @ ys) = downloaded_months xs @ downloaded_months ys"
  by (induction xs rule: downloaded_months.induct) simp_all

lemma published_months_append:
  "published_months (xs @ ys) = published_months xs @ published_months ys"
  by (induction xs rule: published_months.induct) simp_all

lemma processed_units_append:
  "processed_units (xs @ ys) = processed_units xs @ processed_units ys"
  by (induction xs rule: processed_units.induct) simp_all

lemmas trace_append = downloaded_months_append published_months_append processed_units_append

lemma process_units_snoc:
  "process_units plf st (ms @ [m]) = fst (plf m (process_units plf st ms))"
  by (simp add: process_units_def)

lemma redo_free_start:
  "redo_free done plf st (start_workers ms done st)"
  by (simp add: redo_free_def start_workers_def process_units_def)

lemma download_worker_step_cases:
  obtains (idle) "download_worker_step env s = s"
  | (publish) m where "putting s = Some m"
      "download_worker_step env s =
         log_event (Published m) (s\<lparr>download_queue := download_queue s @ [m], putting := None\<rparr>)"
  | (finish) "download_worker_step env s = s\<lparr>download_complete := True\<rparr>"
  | (break) "download_worker_step env s = s\<lparr>months_left := [], download_complete := True\<rparr>"
  | (skip) m rest where "months_left s = m # rest"
      "download_worker_step env s = log_event (Skipped m) (s\<lparr>months_left := rest\<rparr>)"
  | (reuse) m rest where "months_left s = m # rest" "m \<notin> processed_months s"
      "download_worker_step env s = s\<lparr>months_left := rest, putting := Some m\<rparr>"
  | (abort) "download_worker_step env s = abort_downloads s"
  | (fetched) m rest evs where "months_left s = m # rest" "m \<notin> processed_months s"
      "download_worker_step env s =
         log_event (Downloaded m evs True) (s\<lparr>months_left := rest, putting := Some m\<rparr>)"
  | (failed) m rest evs ok where "months_left s = m # rest" "m \<notin> processed_months s"
      "download_worker_step env s = log_event (Downloaded m evs ok) (abort_downloads s)"
proof (cases "download_complete s")
  case True
  then show ?thesis using idle by (simp add: download_worker_step_def)
next
  case nc: False
  show ?thesis
  proof (cases "putting s")
    case (Some m)
    then show ?thesis
      using nc idle publish by (cases "length (download_queue s) < 3")
        (simp_all add: download_worker_step_def)
  next
    case None
    show ?thesis
    proof (cases "months_left s")
      case Nil
      then show ?thesis using nc None finish by (simp add: download_worker_step_def)
    next
      case (Cons m rest)
      note base = nc None Cons
      show ?thesis
      proof (cases "shutdown_requested s")
        case True
        then show ?thesis using base break by (simp add: download_worker_step_def)
      next
        case ns: False
        show ?thesis
        proof (cases "m \<in> processed_months s")
          case True
          then show ?thesis using base ns skip by (simp add: download_worker_step_def)
        next
          case np: False
          show ?thesis
          proof (cases "existing env = ValidFile")
            case True
            then show ?thesis using base ns np reuse by (simp add: download_worker_step_def)
          next
            case nv: False
            show ?thesis
            proof (cases "existing env = InvalidFileRemoveRaises")
              case True
              then show ?thesis
                using base ns np nv abort by (simp add: download_worker_step_def)
            next
              case nr: False
              obtain evs r where dl: "download_file_with_retry (attempts env) 3 = (evs, r)"
                by (cases "download_file_with_retry (attempts env) 3")
              have unfold: "download_worker_step env s =
                  (case r of
                     Inr True \<Rightarrow>
                       if revalidates env
                       then log_event (Downloaded m evs True)
                              (s\<lparr>months_left := rest, putting := Some m\<rparr>)
                       else log_event (Downloaded m evs True) (abort_downloads s)
                   | Inr False \<Rightarrow> log_event (Downloaded m evs False) (abort_downloads s)
                   | Inl e \<Rightarrow> log_event (Downloaded m evs False) (abort_downloads s))"
                using base ns np nv nr dl
                by (simp add: download_worker_step_def split: sum.split bool.split)
              show ?thesis
              proof (cases r)
                case (Inl e)
                then show ?thesis using unfold failed [OF Cons np] by simp
              next
                case (Inr ok)
                show ?thesis
                proof (cases "ok \<and> revalidates env")
                  case True
                  then show ?thesis using unfold Inr fetched [OF Cons np] by simp
                next
                  case False
                  then show ?thesis
                    using unfold Inr failed [OF Cons np] by (cases ok) simp_all
                qed
              qed
            qed
          qed
        qed
      qed
    qed
  qed
qed

lemma redo_free_download_step:
  assumes "redo_free done plf st0 s"
  shows "redo_free done plf st0 (download_worker_step env s)"
proof (cases env s rule: download_worker_step_cases)
  case idle
  then show ?thesis using assms by simp
next
  case (publish m)
  then show ?thesis
    using assms by (auto simp: redo_free_def log_event_def trace_append)
next
  case finish
  then show ?thesis using assms by (simp add: redo_free_def)
next
  case break
  then show ?thesis using assms by (simp add: redo_free_def)
next
  case (skip m rest)
  then show ?thesis
    using assms by (simp add: redo_free_def log_event_def trace_append)
next
  case (reuse m rest)
  then show ?thesis
    using assms by (auto simp: redo_free_def)
next
  case abort
  then show ?thesis using assms by (simp add: redo_free_def abort_downloads_def)
next
  case (fetched m rest evs)
  then show ?thesis
    using assms by (auto simp: redo_free_def log_event_def trace_append)
next
  case (failed m rest evs ok)
  then show ?thesis
    using assms by (auto simp: redo_free_def log_event_def abort_downloads_def trace_append)
qed

lemma redo_free_process_step:
  assumes "redo_free done plf st0 s"
  shows "redo_free done plf st0 (process_worker_step plf s)"
  using assms
  by (auto simp: redo_free_def process_worker_step_def log_event_def trace_append
        process_units_snoc split: list.splits prod.splits if_splits)

lemma redo_free_step:
  assumes "redo_free done plf st0 s"
  shows "redo_free done plf st0 (pipeline_step plf s a)"
proof (cases a)
  case (DownloadStep env)
  then show ?thesis using assms by (simp add: redo_free_download_step)
next
  case ProcessStep
  then show ?thesis using assms by (simp add: redo_free_process_step)
next
  case ProcessCrash
  then show ?thesis using assms by (simp add: redo_free_def)
next
  case Interrupt
  then show ?thesis using assms by (simp add: redo_free_def)
qed

lemma redo_free_run:
  assumes "redo_free done plf st0 s"
  shows "redo_free done plf st0 (run_pipeline plf s acts)"
  using assms
proof (induction acts arbitrary: s)
  case Nil
  then show ?case by (simp add: run_pipeline_def)
next
  case (Cons a acts)
  have "run_pipeline plf s (a # acts) = run_pipeline plf (pipeline_step plf s a) acts"
    by (simp add: run_pipeline_def)
  then show ?case using Cons.IH [OF redo_free_step [OF Cons.prems]] by simp
qed

lemma redo_free_untouched:
  assumes "redo_free done plf st0 s" and "u \<in> done"
  shows "untouched u s"
  using assms by (auto simp: redo_free_def untouched_def)

text \<open>
  Claim C2. A month that is in \<open>processed_months\<close> when the run starts is not in the
  work list that \<open>run_analysis\<close> hands to the download worker. Whatever the schedule of
  the two workers and whatever the environment does, the run never downloads, publishes,
  queues or processes that month, and the statistics at every point of the run are those
  of processing, in order, the units that the run did process, none of which is that month.
  The same holds when the download worker is handed a list that still contains the month:
  its own check skips it.
\<close>

theorem completed_months_never_redone:
  assumes "u \<in> processed"
  shows "u \<notin> set (remaining_months months processed) \<and>
         untouched u (run_analysis plf months processed st acts) \<and>
         stats (run_analysis plf months processed st acts)
           = process_units plf st
               (processed_units (trace (run_analysis plf months processed st acts))) \<and>
         untouched u (run_pipeline plf (start_workers ms processed st) acts) \<and>
         stats (run_pipeline plf (start_workers ms processed st) acts)
           = process_units plf st
               (processed_units (trace (run_pipeline plf (start_workers ms processed st) acts)))"
proof -
  have inv: "redo_free processed plf st (run_pipeline plf (start_workers l processed st) acts)"
    for l
    by (rule redo_free_run [OF redo_free_start])
  have a: "u \<notin> set (remaining_months months processed)"
    using assms by (simp add: remaining_months_def)
  have b: "untouched u (run_pipeline plf (start_workers l processed st) acts)" for l
    using inv assms by (rule redo_free_untouched)
  have c: "stats (run_pipeline plf (start_workers l processed st) acts)
           = process_units plf st
               (processed_units (trace (run_pipeline plf (start_workers l processed st) acts)))"
    for l
    using inv [of l] by (simp add: redo_free_def)
  show ?thesis
    using a b c unfolding run_analysis_def by blast
qed

theorem completed_months_never_redone_witness:
  "''2021-07'' \<notin> set (remaining_months [''2021-07'', ''2021-08''] {''2021-07''}) \<and>
   untouched ''2021-07''
     (run_pipeline (\<lambda>m st. (st, True))
        (start_workers [''2021-07'', ''2021-08''] {''2021-07''} [(''A'', zero_stats)])
        [DownloadStep \<lparr>existing = NoFile, attempts = (\<lambda>i. Installed), revalidates = True\<rparr>,
         DownloadStep \<lparr>existing = NoFile, attempts = (\<lambda>i. Installed), revalidates = True\<rparr>,
         DownloadStep \<lparr>existing = NoFile, attempts = (\<lambda>i. Installed), revalidates = True\<rparr>,
         ProcessStep]) \<and>
   trace
     (run_pipeline (\<lambda>m st. (st, True))
        (start_workers [''2021-07'', ''2021-08''] {''2021-07''} [(''A'', zero_stats)])
        [DownloadStep \<lparr>existing = NoFile, attempts = (\<lambda>i. Installed), revalidates = True\<rparr>,
         DownloadStep \<lparr>existing = NoFile, attempts = (\<lambda>i. Installed), revalidates = True\<rparr>,
         DownloadStep \<lparr>existing = NoFile, attempts = (\<lambda>i. Installed), revalidates = True\<rparr>,
         ProcessStep])
     = [Skipped ''2021-07'', Downloaded ''2021-08'' [Attempt 0] True, Published ''2021-08'',
        Processed ''2021-08'' True]"
proof -
  let ?env = "\<lparr>existing = NoFile, attempts = (\<lambda>i. Installed), revalidates = True\<rparr>"
  let ?acts = "[DownloadStep ?env, DownloadStep ?env, DownloadStep ?env, ProcessStep]"
  have m: "''2021-07'' \<in> {''2021-07''}" by simp
  note t = completed_months_never_redone [OF m, of "[''2021-07'', ''2021-08'']"
      "\<lambda>m st. (st, True)" "[(''A'', zero_stats)]" ?acts "[''2021-07'', ''2021-08'']"]
  have dl: "download_file_with_retry (\<lambda>i. Installed) 3 = ([Attempt 0], Inr True)"
    by (simp add: download_file_with_retry_def download_attempts.simps)
  have tr: "trace (run_pipeline (\<lambda>m st. (st, True))
        (start_workers [''2021-07'', ''2021-08''] {''2021-07''} [(''A'', zero_stats)]) ?acts)
     = [Skipped ''2021-07'', Downloaded ''2021-08'' [Attempt 0] True, Published ''2021-08'',
        Processed ''2021-08'' True]"
    by (simp add: run_pipeline_def start_workers_def download_worker_step_def
          process_worker_step_def log_event_def dl)
  show ?thesis using t tr by blast
qed

section \<open>Download manager: retries\<close>

text \<open>
  Claim C8 at a download whose first attempt yields a file that fails validation. The
  claim says that consecutive attempts are 30 seconds apart. The branch of a failed
  validation (and that of a failed move) goes to the next attempt with \<^verbatim>\<open>continue\<close>:
  the second attempt starts with no call of \<^verbatim>\<open>time.sleep\<close> in between, and three failed
  validations make three attempts back to back. Only the exception handler sleeps.
\<close>

theorem validation_failure_retried_without_wait:
  "download_file_with_retry (\<lambda>attempt. if attempt = 0 then ValidationFailed else Installed) 3
     = ([Attempt 0, Attempt 1], Inr True) \<and>
   download_file_with_retry (\<lambda>attempt. ValidationFailed) 3
     = ([Attempt 0, Attempt 1, Attempt 2], Inr False) \<and>
   download_file_with_retry (\<lambda>attempt. TransferFailed) 3
     = ([Attempt 0, Sleep 30, Attempt 1, Sleep 30, Attempt 2], Inr False)"
  by (simp add: download_file_with_retry_def download_attempts.simps prepend_def)

text \<open>
  The parts of the retry policy that hold in general: at most \<open>max_retries\<close> attempts,
  every sleep is one of 30 seconds, and a download that does not succeed (or whose file
  fails the validation that follows) makes the worker set the shutdown signal and leave
  its loop, after which no step downloads or publishes anything.
\<close>

lemma download_attempts_bounded:
  "length (filter is_attempt (fst (download_attempts outcome max_retries attempt)))
     \<le> max_retries - attempt"
proof (induction outcome max_retries attempt rule: download_attempts.induct)
  case (1 outcome max_retries attempt)
  show ?case
  proof (cases "max_retries \<le> attempt")
    case True
    then show ?thesis by (simp add: download_attempts.simps)
  next
    case False
    then show ?thesis
      using "1.IH"
      by (subst download_attempts.simps)
        (cases "outcome attempt"; force simp: prepend_def)
  qed
qed

lemma download_attempts_sleep_30:
  "Sleep t \<in> set (fst (download_attempts outcome max_retries attempt)) \<Longrightarrow> t = 30"
proof (induction outcome max_retries attempt rule: download_attempts.induct)
  case (1 outcome max_retries attempt)
  show ?case
  proof (cases "max_retries \<le> attempt")
    case True
    then show ?thesis using "1.prems" by (simp add: download_attempts.simps)
  next
    case False
    then show ?thesis
      using "1.IH" "1.prems"
      by (subst (asm) download_attempts.simps)
        (cases "outcome attempt"; force simp: prepend_def split: if_splits)
  qed
qed

lemma at_most_max_retries_attempts:
  "length (filter is_attempt (fst (download_file_with_retry outcome max_retries))) \<le> max_retries"
  using download_attempts_bounded [of outcome max_retries 0]
  by (simp add: download_file_with_retry_def)

lemma download_complete_step:
  assumes "download_complete s"
  shows "download_complete (pipeline_step plf s a) \<and>
         downloaded_months (trace (pipeline_step plf s a)) = downloaded_months (trace s) \<and>
         published_months (trace (pipeline_step plf s a)) = published_months (trace s)"
proof (cases a)
  case (DownloadStep env)
  then show ?thesis using assms by (simp add: download_worker_step_def)
next
  case ProcessStep
  then show ?thesis
    using assms
    by (auto simp: process_worker_step_def log_event_def trace_append
          split: list.splits prod.splits)
next
  case ProcessCrash
  then show ?thesis using assms by simp
next
  case Interrupt
  then show ?thesis using assms by simp
qed

lemma download_complete_run:
  assumes "download_complete s"
  shows "downloaded_months (trace (run_pipeline plf s acts)) = downloaded_months (trace s) \<and>
         published_months (trace (run_pipeline plf s acts)) = published_months (trace s)"
  using assms
proof (induction acts arbitrary: s)
  case Nil
  then show ?case by (simp add: run_pipeline_def)
next
  case (Cons a acts)
  have "run_pipeline plf s (a # acts) = run_pipeline plf (pipeline_step plf s a) acts"
    by (simp add: run_pipeline_def)
  then show ?case
    using Cons.IH [of "pipeline_step plf s a"] download_complete_step [OF Cons.prems, of plf a]
    by simp
qed

lemma failed_download_stops_worker:
  assumes "\<not> download_complete s" "putting s = None" "months_left s = month # rest"
    and "\<not> shutdown_requested s" "month \<notin> processed_months s"
    and "existing env = NoFile \<or> existing env = InvalidFile"
    and "snd (download_file_with_retry (attempts env) 3) \<noteq> Inr True \<or> \<not> revalidates env"
  shows "shutdown_requested (download_worker_step env s) \<and>
         months_left (download_worker_step env s) = [] \<and>
         putting (download_worker_step env s) = None \<and>
         downloaded_months (trace (run_pipeline plf (download_worker_step env s) acts))
           = downloaded_months (trace s) @ [month] \<and>
         published_months (trace (run_pipeline plf (download_worker_step env s) acts))
           = published_months (trace s)"
proof -
  obtain evs r where dl: "download_file_with_retry (attempts env) 3 = (evs, r)"
    by (cases "download_file_with_retry (attempts env) 3")
  have "\<exists>ok. download_worker_step env s = log_event (Downloaded month evs ok) (abort_downloads s)"
  proof (cases r)
    case (Inl e)
    then show ?thesis
      using assms dl by (auto simp: download_worker_step_def)
  next
    case (Inr ok)
    then show ?thesis
      using assms dl by (cases ok) (auto simp: download_worker_step_def)
  qed
  then obtain ok where
    step: "download_worker_step env s = log_event (Downloaded month evs ok) (abort_downloads s)"
    by blast
  have dc: "download_complete (download_worker_step env s)"
    using step by (simp add: log_event_def abort_downloads_def)
  show ?thesis
    using download_complete_run [OF dc, of plf acts] step assms(2)
    by (simp add: log_event_def abort_downloads_def trace_append)
qed

section \<open>Popularity scorer: the threshold index stays in range\<close>

lemma round_half_even_le:
  assumes "x \<le> of_int m"
  shows "round_half_even x \<le> m"
proof -
  have f: "\<lfloor>x\<rfloor> \<le> m" using assms by (simp add: floor_le_iff)
  show ?thesis
  proof (cases "x - of_int \<lfloor>x\<rfloor> < 1 / 2")
    case True
    then show ?thesis using f by (simp add: round_half_even_def Let_def)
  next
    case False
    then have "of_int \<lfloor>x\<rfloor> < x" by linarith
    then have "of_int \<lfloor>x\<rfloor> < (of_int m :: rat)" using assms by linarith
    then have "\<lfloor>x\<rfloor> < m" by simp
    then show ?thesis by (simp add: round_half_even_def Let_def)
  qed
qed

lemma round_half_even_of_int: "round_half_even (of_int m) = m"
  by (simp add: round_half_even_def)

lemma round_half_even_nonneg:
  assumes "0 \<le> x"
  shows "0 \<le> round_half_even x"
proof -
  have "0 \<le> \<lfloor>x\<rfloor>" using assms by simp
  then show ?thesis by (simp add: round_half_even_def Let_def)
qed

lemma binade_le_52:
  assumes "0 < x" "x \<le> of_int N" "N < 2 ^ 53"
  shows "binade x \<le> 52"
proof (cases "1 \<le> x")
  case True
  let ?a = "\<lfloor>x\<rfloor>"
  have a: "0 < ?a" using True by simp
  have "?a \<le> N" using assms(2) by (simp add: floor_le_iff)
  then have "?a < 2 ^ 53" using assms(3) by linarith
  moreover have "2 ^ nat (bitlen ?a - 1) \<le> ?a" using bitlen_bounds [OF a] by simp
  ultimately have "(2::int) ^ nat (bitlen ?a - 1) < 2 ^ 53" by linarith
  then have "nat (bitlen ?a - 1) < 53"
    by (rule power_less_imp_less_exp [of "2::int", rotated]) simp
  then show ?thesis using True by (simp add: binade_def)
next
  case False
  then show ?thesis using bitlen_nonneg [of "\<lceil>1 / x\<rceil> - 1"] by (simp add: binade_def)
qed

lemma ulp_inverse:
  assumes "e \<le> 52"
  shows "(power_int 2 (e - 52) :: rat) = 1 / 2 ^ nat (52 - e)"
proof (cases "e = 52")
  case True
  then show ?thesis by simp
next
  case False
  then have "e - 52 < 0" using assms by simp
  then show ?thesis by (simp add: power_int_def field_simps)
qed

lemma fl_pos_le:
  assumes "0 < x" "x \<le> of_int N" "N < 2 ^ 53"
  shows "fl x \<le> of_int N"
proof -
  let ?k = "nat (52 - binade x)"
  have u: "(power_int 2 (binade \<bar>x\<bar> - 52) :: rat) = 1 / 2 ^ ?k"
    using ulp_inverse [OF binade_le_52 [OF assms]] assms(1) by simp
  have "x * 2 ^ ?k \<le> of_int N * 2 ^ ?k" using assms(2) by simp
  then have "x * 2 ^ ?k \<le> of_int (N * 2 ^ ?k)" by simp
  then have r: "round_half_even (x * 2 ^ ?k) \<le> N * 2 ^ ?k" by (rule round_half_even_le)
  have "fl x = of_int (round_half_even (x * 2 ^ ?k)) / 2 ^ ?k"
    using assms(1) u by (simp add: fl_def Let_def)
  also have "\<dots> \<le> of_int (N * 2 ^ ?k) / 2 ^ ?k"
  proof (rule divide_right_mono)
    show "(of_int (round_half_even (x * 2 ^ ?k)) :: rat) \<le> of_int (N * 2 ^ ?k)"
      using r by (simp only: of_int_le_iff)
  qed simp
  also have "\<dots> = of_int N" by simp
  finally show ?thesis .
qed

lemma fl_le_int:
  assumes "x \<le> of_int N" "0 \<le> N" "N < 2 ^ 53"
  shows "fl x \<le> of_int N"
proof -
  consider "0 < x" | "x = 0" | "x < 0" by linarith
  then show ?thesis
  proof cases
    case 1
    then show ?thesis using assms by (simp add: fl_pos_le)
  next
    case 2
    then show ?thesis using assms by (simp add: fl_def)
  next
    case 3
    let ?u = "power_int 2 (binade \<bar>x\<bar> - 52) :: rat"
    have up: "0 < ?u" by simp
    then have "0 \<le> \<bar>x\<bar> / ?u" by simp
    then have "0 \<le> round_half_even (\<bar>x\<bar> / ?u)" by (rule round_half_even_nonneg)
    then have "0 \<le> of_int (round_half_even (\<bar>x\<bar> / ?u)) * ?u" using up by simp
    moreover have "fl x = - (of_int (round_half_even (\<bar>x\<bar> / ?u)) * ?u)"
      using 3 by (simp add: fl_def Let_def)
    ultimately have "fl x \<le> 0" by simp
    then show ?thesis using assms(2) by (meson le_less_trans not_le of_int_0_le_iff order_trans)
  qed
qed

lemma fl_of_int:
  assumes "0 < n" "n < 2 ^ 53"
  shows "fl (of_int n) = of_int n"
proof -
  let ?x = "of_int n :: rat"
  let ?k = "nat (52 - binade ?x)"
  have pos: "0 < ?x" using assms(1) by simp
  have "binade ?x \<le> 52" using binade_le_52 [OF pos _ assms(2)] by simp
  then have u: "(power_int 2 (binade \<bar>?x\<bar> - 52) :: rat) = 1 / 2 ^ ?k"
    using ulp_inverse pos by simp
  have "?x * 2 ^ ?k = of_int (n * 2 ^ ?k)" by simp
  then have "round_half_even (?x * 2 ^ ?k) = n * 2 ^ ?k"
    by (simp only: round_half_even_of_int)
  then have "fl ?x = of_int (n * 2 ^ ?k) / 2 ^ ?k"
    using pos u by (simp add: fl_def Let_def)
  then show ?thesis by simp
qed

lemma decile_index_upper:
  assumes "1 \<le> i" "i \<le> 10" "0 < n" "n < 2 ^ 53"
  shows "decile_index i n \<le> n - 1"
proof -
  have "(of_int i / 10 :: rat) \<le> of_int 1" using assms(2) by simp
  then have c: "fl (of_int i / 10) \<le> 1"
    using fl_le_int [of "of_int i / 10" 1] by simp
  have n: "fl (of_int n) = of_int n" using assms(3,4) by (rule fl_of_int)
  have "fl (of_int i / 10) * of_int n \<le> 1 * of_int n"
    using c assms(3) by (intro mult_right_mono) simp_all
  then have "fl (fl (of_int i / 10) * fl (of_int n)) \<le> of_int n"
    using n assms(3,4) by (intro fl_le_int) simp_all
  then have "py_trunc (fl (fl (of_int i / 10) * fl (of_int n))) \<le> n"
    by (simp add: py_trunc_def floor_le_iff ceiling_le_iff)
  then show ?thesis by (simp add: decile_index_def)
qed

section \<open>Popularity scorer: thresholds and scores\<close>

lemma list_get_in_range:
  assumes "0 \<le> i" "i < int (length xs)"
  shows "list_get xs i = Inr (xs ! nat i)"
  using assms by (simp add: list_get_def)

lemma thresholds_for_in_range:
  assumes "game_counts \<noteq> []"
    and "\<forall>i \<in> set is. decile_index i (int (length game_counts)) \<le> int (length game_counts) - 1"
  shows "thresholds_for game_counts is =
           Inr (map (\<lambda>i. game_counts ! nat (max 0 (decile_index i (int (length game_counts))))) is)"
  using assms(2)
proof (induction "is")
  case Nil
  then show ?case by simp
next
  case (Cons i rest)
  let ?n = "int (length game_counts)"
  let ?index = "if decile_index i ?n < 0 then 0 else decile_index i ?n"
  have n: "0 < ?n" using assms(1) by simp
  have up: "decile_index i ?n \<le> ?n - 1" using Cons.prems by simp
  have idx: "?index = max 0 (decile_index i ?n)" by simp
  have "0 \<le> ?index" "?index < ?n" using n up by auto
  then have get: "list_get game_counts ?index = Inr (game_counts ! nat ?index)"
    by (rule list_get_in_range)
  have rest: "thresholds_for game_counts rest =
      Inr (map (\<lambda>i. game_counts ! nat (max 0 (decile_index i ?n))) rest)"
    using Cons by simp
  show ?case
    using get rest by (simp add: Let_def max_def)
qed

lemma percentile_thresholds_in_range:
  assumes "game_counts \<noteq> []" and "int (length game_counts) < 2 ^ 53"
  shows "percentile_thresholds game_counts =
           Inr (map (\<lambda>i. game_counts ! nat (max 0 (decile_index i (int (length game_counts)))))
                  [1..10])"
  unfolding percentile_thresholds_def
proof (rule thresholds_for_in_range [OF assms(1)])
  have pos: "0 < int (length game_counts)" using assms(1) by simp
  show "\<forall>i \<in> set [1..10].
      decile_index i (int (length game_counts)) \<le> int (length game_counts) - 1"
  proof
    fix i :: int
    assume "i \<in> set [1..10]"
    then have "1 \<le> i" "i \<le> 10" by simp_all
    then show "decile_index i (int (length game_counts)) \<le> int (length game_counts) - 1"
      using pos assms(2) by (rule decile_index_upper)
  qed
qed

lemma score_scan_ge: "score \<le> score_scan games thresholds score"
proof (induction thresholds arbitrary: score)
  case Nil
  then show ?case by simp
next
  case (Cons t ts)
  have "score \<le> score + 1" by simp
  also have "\<dots> \<le> score_scan games ts (score + 1)" by (rule Cons.IH)
  finally show ?case by simp
qed

lemma score_scan_mono:
  assumes "a \<le> b"
  shows "score_scan a thresholds score \<le> score_scan b thresholds score"
proof (induction thresholds arbitrary: score)
  case Nil
  then show ?case by simp
next
  case (Cons t ts)
  consider "b \<le> t" | "a \<le> t" "t < b" | "t < a" by linarith
  then show ?case
  proof cases
    case 1
    then show ?thesis using assms by simp
  next
    case 2
    have "score \<le> score + 1" by simp
    also have "\<dots> \<le> score_scan b ts (score + 1)" by (rule score_scan_ge)
    finally show ?thesis using 2 by simp
  next
    case 3
    then show ?thesis using assms Cons.IH by simp
  qed
qed

lemma score_scan_takeWhile:
  "score_scan games thresholds score
     = score + int (length (takeWhile (\<lambda>t. t < games) thresholds))"
  by (induction thresholds arbitrary: score) (simp_all add: not_le)

lemma sorted_takeWhile_filter:
  assumes "sorted ts"
  shows "takeWhile (\<lambda>t. t < (g::int)) ts = filter (\<lambda>t. t < g) ts"
  using assms
proof (induction ts)
  case Nil
  then show ?case by simp
next
  case (Cons t ts)
  show ?case
  proof (cases "t < g")
    case True
    then show ?thesis using Cons by simp
  next
    case False
    then have "\<forall>x \<in> set ts. \<not> x < g" using Cons.prems by auto
    then have "filter (\<lambda>t. t < g) ts = []" by (simp add: filter_empty_conv)
    then show ?thesis using False by simp
  qed
qed

lemma score_scan_boundary:
  assumes "j < length thresholds" and "games = thresholds ! j"
  shows "score_scan games thresholds 1 \<le> int j + 1"
proof -
  let ?tw = "takeWhile (\<lambda>t. t < games) thresholds"
  have "length ?tw \<le> j"
  proof (rule ccontr)
    assume "\<not> length ?tw \<le> j"
    then have lt: "j < length ?tw" by simp
    then have "?tw ! j \<in> set ?tw" by simp
    then have "?tw ! j < games" by (metis (mono_tags, lifting) set_takeWhileD)
    moreover have "?tw ! j = thresholds ! j" using lt by (rule takeWhile_nth)
    ultimately show False using assms(2) by simp
  qed
  then show ?thesis by (simp add: score_scan_takeWhile)
qed

lemma score_stats_fields:
  "games_analyzed (score_stats thresholds s) = games_analyzed s"
  "popularity_score (score_stats thresholds s)
     = (if games_analyzed s = 0 then 0
        else min (score_scan (games_analyzed s) thresholds 1) 10)"
  "confidence_score (score_stats thresholds s)
     = (if games_analyzed s = 0 then 0 else confidence_for (games_analyzed s))"
  by (simp_all add: score_stats_def)

lemma positive_counts_member:
  assumes "(k, s) \<in> set st" and "0 < games_analyzed s"
  shows "games_analyzed s \<in> set (positive_counts st)"
  using assms by (force simp: positive_counts_def)

lemma positive_counts_length: "length (positive_counts st) \<le> length st"
  by (simp add: positive_counts_def le_trans [OF length_filter_le])

lemma spec_thresholds_sorted:
  assumes "sorted xs" and "xs \<noteq> []"
  shows "sorted (spec_thresholds xs)"
proof -
  let ?n = "int (length xs)"
  let ?idx = "\<lambda>i. max 0 (min (?n - 1) ((i * ?n) div 10 - 1))"
  have n: "0 < ?n" using assms(2) by simp
  have mono: "xs ! nat (?idx x) \<le> xs ! nat (?idx y)" if "x \<le> y" for x y :: int
  proof (rule sorted_nth_mono [OF assms(1)])
    have "x * ?n \<le> y * ?n" using that n by (simp add: mult_right_mono)
    then have "(x * ?n) div 10 \<le> (y * ?n) div 10" by (rule zdiv_mono1) simp
    then show "nat (?idx x) \<le> nat (?idx y)" by (intro nat_mono) auto
    have "?idx y < ?n" using n by linarith
    then show "nat (?idx y) < length xs" by linarith
  qed
  have "sorted_wrt (\<lambda>x y. xs ! nat (?idx x) \<le> xs ! nat (?idx y)) [1..10]"
    using sorted_upto [of 1 10]
    by (rule sorted_wrt_mono_rel [rotated]) (use mono in auto)
  then show ?thesis
    by (simp add: spec_thresholds_def Let_def sorted_map)
qed

lemma percentile_thresholds_spec:
  assumes "game_counts \<noteq> []"
    and "\<forall>i \<in> {1..10}. decile_index i (int (length game_counts))
            = (i * int (length game_counts)) div 10 - 1"
  shows "percentile_thresholds game_counts = Inr (spec_thresholds game_counts)"
proof -
  let ?n = "int (length game_counts)"
  have n: "0 < ?n" using assms(1) by simp
  have le: "(i * ?n) div 10 - 1 \<le> ?n - 1" if "i \<in> {1..10}" for i
  proof -
    have "i * ?n \<le> 10 * ?n" using that n by (simp add: mult_right_mono)
    then have "(i * ?n) div 10 \<le> (10 * ?n) div 10" by (rule zdiv_mono1) simp
    then show ?thesis by simp
  qed
  have up: "\<forall>i \<in> set [1..10]. decile_index i ?n \<le> ?n - 1"
    using assms(2) le by simp
  have "map (\<lambda>i. game_counts ! nat (max 0 (decile_index i ?n))) [1..10]
        = spec_thresholds game_counts"
    unfolding spec_thresholds_def Let_def
  proof (rule map_cong [OF refl])
    fix i assume "i \<in> set [1..10]"
    then have i: "i \<in> {1..10}" by simp
    have "min (?n - 1) ((i * ?n) div 10 - 1) = (i * ?n) div 10 - 1"
      using le [OF i] by simp
    then show "game_counts ! nat (max 0 (decile_index i ?n))
        = game_counts ! nat (max 0 (min (?n - 1) ((i * ?n) div 10 - 1)))"
      using assms(2) i by simp
  qed
  then show ?thesis
    using thresholds_for_in_range [OF assms(1) up]
    by (simp add: percentile_thresholds_def)
qed

lemma percentile_thresholds_by_indices:
  assumes "map (\<lambda>i. decile_index i (int (length game_counts))) [1..10] = idxs"
    and "\<forall>idx \<in> set idxs. idx < int (length game_counts)"
    and "game_counts \<noteq> []"
  shows "percentile_thresholds game_counts
           = Inr (map (\<lambda>idx. game_counts ! nat (max 0 idx)) idxs)"
proof -
  let ?n = "int (length game_counts)"
  have "\<forall>i \<in> set [1..10]. decile_index i ?n \<le> ?n - 1"
  proof
    fix i :: int
    assume "i \<in> set [1..10]"
    then have "decile_index i ?n \<in> set (map (\<lambda>i. decile_index i ?n) [1..10])"
      by (simp only: set_map) (rule imageI)
    then have "decile_index i ?n < ?n" using assms(1,2) by blast
    then show "decile_index i ?n \<le> ?n - 1" by simp
  qed
  from thresholds_for_in_range [OF assms(3) this]
  have "percentile_thresholds game_counts
      = Inr (map (\<lambda>i. game_counts ! nat (max 0 (decile_index i ?n))) [1..10])"
    by (simp add: percentile_thresholds_def)
  also have "map (\<lambda>i. game_counts ! nat (max 0 (decile_index i ?n))) [1..10]
      = map (\<lambda>idx. game_counts ! nat (max 0 idx)) (map (\<lambda>i. decile_index i ?n) [1..10])"
    by (simp only: map_map comp_def)
  finally show ?thesis using assms(1) by simp
qed

text \<open>The indices in double precision for two and for ninety positive counts.\<close>

lemma decile_indices_2:
  "map (\<lambda>i. decile_index i 2) [1..10] = [-1, -1, -1, -1, 0, 0, 0, 0, 0, 1]"
  by code_simp

lemma decile_indices_90:
  "map (\<lambda>i. decile_index i 90) [1..10] = [8, 17, 26, 35, 44, 53, 61, 71, 80, 89]"
  by code_simp

lemma thresholds_of_two:
  "percentile_thresholds [1, 2] = Inr [1, 1, 1, 1, 1, 1, 1, 1, 1, 2]"
  using percentile_thresholds_by_indices [of "[1, 2]", OF _ _ _] decile_indices_2
  by simp

lemma scored_entry:
  assumes "(k, s') \<in> set (map (\<lambda>(k, s). (k, score_stats thresholds s)) st)"
  obtains s where "(k, s) \<in> set st" "s' = score_stats thresholds s"
  using assms by auto

text \<open>
  Claim C6. For a map of fewer than \<open>2^53\<close> positions the scoring pass completes, and
  afterwards the score does not decrease with the count: of two positions with positive
  counts the one with the smaller or equal count has the smaller or equal score, and a
  position with no game has score 0, below every position with a positive count.
\<close>

theorem popularity_score_monotone:
  assumes "int (length st) < 2 ^ 53"
  shows "\<exists>st'. calculate_popularity_scores st = Inr st' \<and>
           (\<forall>(ka, a) \<in> set st'. \<forall>(kb, b) \<in> set st'.
              (0 < games_analyzed a \<and> games_analyzed a \<le> games_analyzed b
                 \<longrightarrow> popularity_score a \<le> popularity_score b) \<and>
              (games_analyzed a = 0 \<and> 0 < games_analyzed b
                 \<longrightarrow> popularity_score a = 0 \<and> popularity_score a \<le> popularity_score b))"
proof (cases "positive_counts st = []")
  case True
  have none: "\<not> 0 < games_analyzed s" if "(k, s) \<in> set st" for k s
    using positive_counts_member [OF that] True by auto
  have "calculate_popularity_scores st = Inr st"
    using True by (simp add: calculate_popularity_scores_def)
  moreover have "\<forall>(ka, a) \<in> set st. \<forall>(kb, b) \<in> set st.
              (0 < games_analyzed a \<and> games_analyzed a \<le> games_analyzed b
                 \<longrightarrow> popularity_score a \<le> popularity_score b) \<and>
              (games_analyzed a = 0 \<and> 0 < games_analyzed b
                 \<longrightarrow> popularity_score a = 0 \<and> popularity_score a \<le> popularity_score b)"
    using none by blast
  ultimately show ?thesis by blast
next
  case False
  let ?sorted = "sort (positive_counts st)"
  have ne: "?sorted \<noteq> []" using False by (metis length_0_conv length_sort)
  have "int (length ?sorted) \<le> int (length st)"
    using positive_counts_length [of st] by simp
  then have small: "int (length ?sorted) < 2 ^ 53" using assms by linarith
  obtain ths where ths: "percentile_thresholds ?sorted = Inr ths"
    using percentile_thresholds_in_range [OF ne small] by blast
  let ?st' = "map (\<lambda>(k, s). (k, score_stats ths s)) st"
  have res: "calculate_popularity_scores st = Inr ?st'"
    using False ths by (simp add: calculate_popularity_scores_def)
  have "(0 < games_analyzed a \<and> games_analyzed a \<le> games_analyzed b
                 \<longrightarrow> popularity_score a \<le> popularity_score b) \<and>
              (games_analyzed a = 0 \<and> 0 < games_analyzed b
                 \<longrightarrow> popularity_score a = 0 \<and> popularity_score a \<le> popularity_score b)"
    if a: "(ka, a) \<in> set ?st'" and b: "(kb, b) \<in> set ?st'" for ka a kb b
  proof -
    from a obtain a0 where a0: "a = score_stats ths a0" by (rule scored_entry)
    from b obtain b0 where b0: "b = score_stats ths b0" by (rule scored_entry)
    have one: "1 \<le> score_scan g ths 1" for g by (rule score_scan_ge)
    show ?thesis
    proof (intro conjI impI)
      assume "0 < games_analyzed a \<and> games_analyzed a \<le> games_analyzed b"
      then have pa: "0 < games_analyzed a0" and le: "games_analyzed a0 \<le> games_analyzed b0"
        using a0 b0 by (simp_all add: score_stats_fields)
      have "score_scan (games_analyzed a0) ths 1 \<le> score_scan (games_analyzed b0) ths 1"
        using le by (rule score_scan_mono)
      then show "popularity_score a \<le> popularity_score b"
        using pa le a0 b0 by (simp add: score_stats_fields)
    next
      assume z: "games_analyzed a = 0 \<and> 0 < games_analyzed b"
      then show "popularity_score a = 0" using a0 by (simp add: score_stats_fields)
    next
      assume z: "games_analyzed a = 0 \<and> 0 < games_analyzed b"
      then have "popularity_score a = 0" and "0 < games_analyzed b0"
        using a0 b0 by (simp_all add: score_stats_fields)
      then show "popularity_score a \<le> popularity_score b"
        using b0 one [of "games_analyzed b0"] by (simp add: score_stats_fields)
    qed
  qed
  then show ?thesis using res by blast
qed

theorem popularity_score_monotone_witness:
  "\<exists>st'. calculate_popularity_scores
            [(''A'', zero_stats\<lparr>games_analyzed := 2\<rparr>),
             (''B'', zero_stats\<lparr>games_analyzed := 1\<rparr>), (''C'', zero_stats)] = Inr st' \<and>
         popularity_score (snd (st' ! 1)) \<le> popularity_score (snd (st' ! 0)) \<and>
         popularity_score (snd (st' ! 2)) = 0 \<and>
         popularity_score (snd (st' ! 2)) \<le> popularity_score (snd (st' ! 1))"
proof -
  let ?st = "[(''A'', zero_stats\<lparr>games_analyzed := 2\<rparr>),
              (''B'', zero_stats\<lparr>games_analyzed := 1\<rparr>), (''C'', zero_stats)]"
  have small: "int (length ?st) < 2 ^ 53" by simp
  from popularity_score_monotone [OF small]
  obtain st' where res: "calculate_popularity_scores ?st = Inr st'"
    and mono: "\<forall>(ka, a) \<in> set st'. \<forall>(kb, b) \<in> set st'.
              (0 < games_analyzed a \<and> games_analyzed a \<le> games_analyzed b
                 \<longrightarrow> popularity_score a \<le> popularity_score b) \<and>
              (games_analyzed a = 0 \<and> 0 < games_analyzed b
                 \<longrightarrow> popularity_score a = 0 \<and> popularity_score a \<le> popularity_score b)"
    by blast
  have ev: "(case calculate_popularity_scores ?st of
               Inl e \<Rightarrow> [] | Inr r \<Rightarrow> map (\<lambda>(k, s). games_analyzed s) r) = [2, 1, 0]"
  proof -
    have "sort (positive_counts ?st) = [1, 2]" by code_simp
    then show ?thesis
      using thresholds_of_two
      by (simp add: calculate_popularity_scores_def positive_counts_def score_stats_def
            zero_stats_def)
  qed
  then have g: "map (\<lambda>(k, s). games_analyzed s) st' = [2, 1, 0]" using res by simp
  then have len: "length st' = 3" by (metis length_map length_Cons list.size(3) numeral_3_eq_3)
  have ga: "games_analyzed (snd (st' ! 0)) = 2" "games_analyzed (snd (st' ! 1)) = 1"
    "games_analyzed (snd (st' ! 2)) = 0"
    using g len nth_map [of 0 st' "\<lambda>(k, s). games_analyzed s"]
      nth_map [of 1 st' "\<lambda>(k, s). games_analyzed s"]
      nth_map [of 2 st' "\<lambda>(k, s). games_analyzed s"]
    by (simp_all add: case_prod_beta)
  have mem: "st' ! 0 \<in> set st'" "st' ! 1 \<in> set st'" "st' ! 2 \<in> set st'"
    using len by simp_all
  have m: "(0 < games_analyzed (snd p) \<and> games_analyzed (snd p) \<le> games_analyzed (snd q)
               \<longrightarrow> popularity_score (snd p) \<le> popularity_score (snd q)) \<and>
           (games_analyzed (snd p) = 0 \<and> 0 < games_analyzed (snd q)
               \<longrightarrow> popularity_score (snd p) = 0 \<and>
                   popularity_score (snd p) \<le> popularity_score (snd q))"
    if "p \<in> set st'" "q \<in> set st'" for p q
  proof -
    from mono have "\<forall>p \<in> set st'. \<forall>q \<in> set st'.
        (0 < games_analyzed (snd p) \<and> games_analyzed (snd p) \<le> games_analyzed (snd q)
               \<longrightarrow> popularity_score (snd p) \<le> popularity_score (snd q)) \<and>
           (games_analyzed (snd p) = 0 \<and> 0 < games_analyzed (snd q)
               \<longrightarrow> popularity_score (snd p) = 0 \<and>
                   popularity_score (snd p) \<le> popularity_score (snd q))"
      by (simp only: case_prod_unfold)
    with that show ?thesis by blast
  qed
  have "popularity_score (snd (st' ! 1)) \<le> popularity_score (snd (st' ! 0))"
    using m [OF mem(2) mem(1)] ga by simp
  moreover have "popularity_score (snd (st' ! 2)) = 0 \<and>
      popularity_score (snd (st' ! 2)) \<le> popularity_score (snd (st' ! 1))"
    using m [OF mem(3) mem(2)] ga by simp
  ultimately show ?thesis using res by blast
qed

section \<open>Popularity scorer: decile thresholds\<close>

lemma spec_thresholds_length: "length (spec_thresholds xs) = 10"
  by (simp add: spec_thresholds_def Let_def)

lemma score_scan_spec_score:
  assumes "sorted thresholds"
  shows "min (score_scan games thresholds 1) 10 = spec_score thresholds games"
  using sorted_takeWhile_filter [OF assms, of games]
  by (simp add: score_scan_takeWhile spec_score_def)

lemma scored_counts:
  "map (\<lambda>(k, s). (k, games_analyzed s)) (map (\<lambda>(k, s). (k, score_stats thresholds s)) st)
     = map (\<lambda>(k, s). (k, games_analyzed s)) st"
  by (induction st) (auto simp: score_stats_fields)

text \<open>
  What the pass does for every map with a positive count (and fewer than \<open>2^53\<close>
  records), whatever the indices the double-precision product yields: it completes, keeps
  keys and counts, gives score 0 and confidence 0 to every position with no game, gives
  every other position one plus the number of thresholds that the scan passes, capped at
  10, and a position whose count equals the \<open>j\<close>-th threshold gets a score of at most \<open>j\<close>.
  Where the index of each threshold is the exact \<open>floor(i * n / 10) - 1\<close>, the thresholds
  are those of the stated formula (lemma \<open>percentile_thresholds_spec\<close>).
\<close>

lemma scores_follow_thresholds:
  assumes "positive_counts st \<noteq> []" and "int (length st) < 2 ^ 53"
  shows "\<exists>st' ths. calculate_popularity_scores st = Inr st' \<and>
           percentile_thresholds (sort (positive_counts st)) = Inr ths \<and>
           length ths = 10 \<and>
           map (\<lambda>(k, s). (k, games_analyzed s)) st' = map (\<lambda>(k, s). (k, games_analyzed s)) st \<and>
           (\<forall>(k, s) \<in> set st'.
              (games_analyzed s = 0 \<longrightarrow> popularity_score s = 0 \<and> confidence_score s = 0) \<and>
              (0 < games_analyzed s \<longrightarrow>
                 popularity_score s
                   = min (1 + int (length (takeWhile (\<lambda>t. t < games_analyzed s) ths))) 10 \<and>
                 (\<forall>j < 10. games_analyzed s = ths ! j \<longrightarrow> popularity_score s \<le> int j + 1)))"
proof -
  let ?sorted = "sort (positive_counts st)"
  have ne: "?sorted \<noteq> []" using assms(1) by (metis length_0_conv length_sort)
  have "int (length ?sorted) \<le> int (length st)"
    using positive_counts_length [of st] by simp
  then have small: "int (length ?sorted) < 2 ^ 53" using assms(2) by linarith
  define ths where
    "ths = map (\<lambda>i. ?sorted ! nat (max 0 (decile_index i (int (length ?sorted))))) [1..10]"
  have ths: "percentile_thresholds ?sorted = Inr ths"
    unfolding ths_def by (rule percentile_thresholds_in_range [OF ne small])
  have len: "length ths = 10" by (simp add: ths_def)
  let ?st' = "map (\<lambda>(k, s). (k, score_stats ths s)) st"
  have res: "calculate_popularity_scores st = Inr ?st'"
    using assms(1) ths by (simp add: calculate_popularity_scores_def)
  have entry: "(games_analyzed s = 0 \<longrightarrow> popularity_score s = 0 \<and> confidence_score s = 0) \<and>
            (0 < games_analyzed s \<longrightarrow>
               popularity_score s
                 = min (1 + int (length (takeWhile (\<lambda>t. t < games_analyzed s) ths))) 10 \<and>
               (\<forall>j < 10. games_analyzed s = ths ! j \<longrightarrow> popularity_score s \<le> int j + 1))"
    if "(k, s) \<in> set ?st'" for k s
  proof -
    from that obtain s0 where s0: "s = score_stats ths s0" by (rule scored_entry)
    have g: "games_analyzed s = games_analyzed s0" using s0 by (simp add: score_stats_fields)
    show ?thesis
    proof (intro conjI impI allI)
      assume "games_analyzed s = 0"
      then show "popularity_score s = 0" "confidence_score s = 0"
        using s0 g by (simp_all add: score_stats_fields)
    next
      assume "0 < games_analyzed s"
      then show "popularity_score s
          = min (1 + int (length (takeWhile (\<lambda>t. t < games_analyzed s) ths))) 10"
        using s0 g by (simp add: score_stats_fields score_scan_takeWhile)
    next
      fix j :: nat
      assume pos: "0 < games_analyzed s" and j: "j < 10" and eq: "games_analyzed s = ths ! j"
      have "j < length ths" using j len by simp
      then have "score_scan (games_analyzed s0) ths 1 \<le> int j + 1"
        using eq g by (intro score_scan_boundary) simp_all
      then show "popularity_score s \<le> int j + 1"
        using s0 g pos by (simp add: score_stats_fields)
    qed
  qed
  have all: "\<forall>(k, s) \<in> set ?st'.
              (games_analyzed s = 0 \<longrightarrow> popularity_score s = 0 \<and> confidence_score s = 0) \<and>
              (0 < games_analyzed s \<longrightarrow>
                 popularity_score s
                   = min (1 + int (length (takeWhile (\<lambda>t. t < games_analyzed s) ths))) 10 \<and>
                 (\<forall>j < 10. games_analyzed s = ths ! j \<longrightarrow> popularity_score s \<le> int j + 1))"
    using entry by blast
  have cnt: "map (\<lambda>(k, s). (k, games_analyzed s)) ?st'
      = map (\<lambda>(k, s). (k, games_analyzed s)) st"
    by (rule scored_counts)
  show ?thesis
    using res ths len cnt all by (intro exI [of _ ?st'] exI [of _ ths] conjI)
qed

lemma positive_counts_ninety: "sort (positive_counts ninety_positions) = [1..90]"
proof -
  have "positive_counts ninety_positions = [1..90]"
    unfolding positive_counts_def ninety_positions_def
    by (simp add: comp_def filter_id_conv)
  moreover have "sort [1..90] = [1..90]"
    by (rule sort_key_id_if_sorted) simp
  ultimately show ?thesis by simp
qed

lemma len90: "length [1..(90::int)] = 90" by simp

lemma thresholds_of_ninety:
  "percentile_thresholds [1..90] = Inr [9, 18, 27, 36, 45, 54, 62, 72, 81, 90]"
proof -
  have idx: "map (\<lambda>i. decile_index i (int (length [1..(90::int)]))) [1..10]
      = [8, 17, 26, 35, 44, 53, 61, 71, 80, 89]"
    using decile_indices_90 by (simp only: len90) simp
  have rng: "\<forall>idx \<in> set [8, 17, 26, 35, 44, 53, 61, 71, 80, 89::int]. idx < int (length [1..(90::int)])"
    by (simp only: len90) simp
  have ne: "[1..(90::int)] \<noteq> []" by (simp add: upto_Nil)
  show ?thesis
    using percentile_thresholds_by_indices [OF idx rng ne]
    by (simp add: nth_upto)
qed
lemma upto_1_10: "[1..10] = [1, 2, 3, 4, 5, 6, 7, 8, 9, 10 :: int]"
  by code_simp

lemma spec_thresholds_of_ninety:
  "spec_thresholds [1..90] = [9, 18, 27, 36, 45, 54, 63, 72, 81, 90]"
  unfolding spec_thresholds_def Let_def len90 upto_1_10
  by (simp add: nth_upto)

lemma ninety_nonempty: "positive_counts ninety_positions \<noteq> []"
proof
  assume "positive_counts ninety_positions = []"
  then have "sort (positive_counts ninety_positions) = []" by simp
  then have "length [1..(90::int)] = 0" using positive_counts_ninety by simp
  then show False using len90 by linarith
qed

lemma lookup_63:
  "map_of ninety_positions (replicate 63 CHR ''p'') = Some (zero_stats\<lparr>games_analyzed := 63\<rparr>)"
  by code_simp

text \<open>
  Claim C3 at ninety positions with the counts 1..90. The claim puts the \<open>i\<close>-th threshold
  at index \<open>floor(i/10 * n) - 1\<close> of the sorted counts. The code computes
  \<^verbatim>\<open>int((i / 10) * n) - 1\<close> in double precision, and \<open>(7 / 10) * 90\<close> is the double just
  below 63, which truncates to 62: the index of the seventh threshold is 61 where the
  stated formula gives 62, the seventh threshold of the code is 62 where the stated one is
  63, and the position with 63 games gets score 8 where the stated rule gives 7.
\<close>

theorem decile_index_truncates_below_floor:
  "decile_index 7 90 = 61 \<and>
   (7 * 90) div 10 - 1 = (62 :: int) \<and>
   percentile_thresholds (sort (positive_counts ninety_positions))
     = Inr [9, 18, 27, 36, 45, 54, 62, 72, 81, 90] \<and>
   spec_thresholds (sort (positive_counts ninety_positions))
     = [9, 18, 27, 36, 45, 54, 63, 72, 81, 90] \<and>
   (case calculate_popularity_scores ninety_positions of
      Inl e \<Rightarrow> None
    | Inr st' \<Rightarrow> map_option (\<lambda>s. (games_analyzed s, popularity_score s))
                  (map_of st' (replicate 63 CHR ''p''))) = Some (63, 8) \<and>
   spec_score (spec_thresholds (sort (positive_counts ninety_positions))) 63 = 7"
proof -
  let ?ths = "[9, 18, 27, 36, 45, 54, 62, 72, 81, 90] :: int list"
  have a: "decile_index 7 90 = 61"
    using decile_indices_90 by (simp add: upto_1_10)
  have b: "(7 * 90) div 10 - 1 = (62 :: int)" by simp
  have c: "percentile_thresholds (sort (positive_counts ninety_positions)) = Inr ?ths"
    by (simp only: positive_counts_ninety thresholds_of_ninety)
  have d: "spec_thresholds (sort (positive_counts ninety_positions))
     = [9, 18, 27, 36, 45, 54, 63, 72, 81, 90]"
    by (simp only: positive_counts_ninety spec_thresholds_of_ninety)
  have run: "calculate_popularity_scores ninety_positions
      = Inr (map (\<lambda>(k, s). (k, score_stats ?ths s)) ninety_positions)"
    using ninety_nonempty c by (simp add: calculate_popularity_scores_def)
  have "map_of (map (\<lambda>(k, s). (k, score_stats ?ths s)) ninety_positions) (replicate 63 CHR ''p'')
      = Some (score_stats ?ths (zero_stats\<lparr>games_analyzed := 63\<rparr>))"
    using lookup_63 by (simp only: map_of_map comp_def option.map)
  moreover have "games_analyzed (score_stats ?ths (zero_stats\<lparr>games_analyzed := 63\<rparr>)) = 63"
    "popularity_score (score_stats ?ths (zero_stats\<lparr>games_analyzed := 63\<rparr>)) = 8"
    by (simp_all add: score_stats_fields)
  ultimately have e: "(case calculate_popularity_scores ninety_positions of
      Inl e \<Rightarrow> None
    | Inr st' \<Rightarrow> map_option (\<lambda>s. (games_analyzed s, popularity_score s))
                  (map_of st' (replicate 63 CHR ''p''))) = Some (63, 8)"
    by (simp only: run sum.case option.map)
  have f: "spec_score (spec_thresholds (sort (positive_counts ninety_positions))) 63 = 7"
    by (simp add: d spec_score_def)
  show ?thesis using a b c d e f by (intro conjI)
qed

end
